theory Spec2Isabelle
  imports Main "HOL-Library.AList" "HOL-Library.Char_ord" "HOL-Library.List_Lexorder"
begin

section \<open>Python values used by main.py\<close>

text \<open>
  Exceptions that the code of \<^verbatim>\<open>main.py\<close> can raise. \<open>RecursionError\<close> is what the
  interpreter raises when the call depth exceeds its recursion limit.
\<close>

datatype error =
    KeyError
  | RecursionError
  | StopIteration
  | TypeError
  | AttributeError
  | OSError
  | ValueError

text \<open>
  A Python \<^verbatim>\<open>set\<close> of strings is a duplicate-free list; the order of the list is the
  order in which a \<^verbatim>\<open>for\<close> loop visits the set. \<^verbatim>\<open>s.add(x)\<close> is \<open>set_add\<close>.
\<close>

type_synonym pyset = "string list"

definition set_add :: "string \<Rightarrow> pyset \<Rightarrow> pyset" where
  "set_add x s = (if x \<in> set s then s else s @ [x])"

text \<open>
  A Python \<^verbatim>\<open>dict\<close> is an association list in insertion order; \<^verbatim>\<open>d[k] = v\<close> is
  \<^const>\<open>AList.update\<close> (overwrite in place, or append a new key), \<^verbatim>\<open>d[k]\<close> is
  \<^const>\<open>map_of\<close> with \<open>None\<close> raising \<open>KeyError\<close>, and \<^verbatim>\<open>d |= e\<close> stores the items
  of \<open>e\<close> one after the other.
\<close>

type_synonym 'v pydict = "(string \<times> 'v) list"

definition keys :: "'v pydict \<Rightarrow> string list" where
  "keys d = map fst d"

definition dict_ior :: "'v pydict \<Rightarrow> 'v pydict \<Rightarrow> 'v pydict" where
  "dict_ior d e = foldl (\<lambda>acc (k, v). AList.update k v acc) d e"

type_synonym func_table = "pyset pydict"

section \<open>Dependency filter (module level, lines 233 to 240)\<close>

text \<open>
  The inner loop \<^verbatim>\<open>for d in deps\<close>: the assignment \<^verbatim>\<open>funcs[fname] = filtered_deps\<close> is
  inside the loop body, so it runs once per element of \<open>deps\<close> and not at all when
  \<open>deps\<close> is empty.
\<close>

fun filter_inner :: "string \<Rightarrow> pyset \<Rightarrow> pyset \<Rightarrow> func_table \<Rightarrow> func_table" where
  "filter_inner fname [] filtered_deps funcs = funcs"
| "filter_inner fname (d # deps) filtered_deps funcs =
     (let filtered_deps' =
            (if d \<in> set (keys funcs) then set_add d filtered_deps else filtered_deps)
      in filter_inner fname deps filtered_deps' (AList.update fname filtered_deps' funcs))"

text \<open>
  The outer loop \<^verbatim>\<open>for fname, deps in funcs.items()\<close>. The loop only assigns to keys
  that exist, so the key sequence is the one the dictionary had on entry; the value
  \<open>deps\<close> is read from the dictionary when the key is reached.
\<close>

fun filter_outer :: "string list \<Rightarrow> func_table \<Rightarrow> func_table" where
  "filter_outer [] funcs = funcs"
| "filter_outer (fname # rest) funcs =
     (case map_of funcs fname of
        None \<Rightarrow> filter_outer rest funcs
      | Some deps \<Rightarrow> filter_outer rest (filter_inner fname deps [] funcs))"

definition filter_deps :: "func_table \<Rightarrow> func_table" where
  "filter_deps funcs = filter_outer (keys funcs) funcs"

section \<open>Level calculator (lines 200 to 221)\<close>

text \<open>
  The cache of \<^verbatim>\<open>memoize_level\<close> is a dictionary whose keys are pairs of the sorted tuple
  of the graph's keys and the function name.
\<close>

type_synonym cache = "string list \<times> string \<Rightarrow> int option"

definition cache_key :: "func_table \<Rightarrow> string \<Rightarrow> string list \<times> string" where
  "cache_key base_dict key = (sort (keys base_dict), key)"

text \<open>
  \<^verbatim>\<open>memoize_level.__call__\<close>. The test \<^verbatim>\<open>if val := self.cache.get(cache_key)\<close> is a
  truth test: it fails when the key is absent and also when the cached value is \<open>0\<close>.
  The wrapped function receives and returns the cache, because its recursive calls go
  through the same wrapper.
\<close>

type_synonym level_fun = "func_table \<Rightarrow> string \<Rightarrow> cache \<Rightarrow> error + int \<times> cache"

definition memoize_call :: "level_fun \<Rightarrow> level_fun" where
  "memoize_call func base_dict key c =
     (let ck = cache_key base_dict key in
      case (case c ck of None \<Rightarrow> None | Some val \<Rightarrow> if val \<noteq> 0 then Some val else None) of
        Some val \<Rightarrow> Inr (val, c)
      | None \<Rightarrow>
          (case func base_dict key c of
             Inl e \<Rightarrow> Inl e
           | Inr (result, c') \<Rightarrow> Inr (result, c'(ck \<mapsto> result))))"

text \<open>\<^verbatim>\<open>map(lambda k: get_level(base_dict, k), base_dict[key])\<close>, left to right.\<close>

fun map_levels :: "(string \<Rightarrow> cache \<Rightarrow> error + int \<times> cache) \<Rightarrow> string list \<Rightarrow> cache
    \<Rightarrow> error + int list \<times> cache" where
  "map_levels f [] c = Inr ([], c)"
| "map_levels f (k # ks) c =
     (case f k c of
        Inl e \<Rightarrow> Inl e
      | Inr (v, c') \<Rightarrow>
          (case map_levels f ks c' of
             Inl e \<Rightarrow> Inl e
           | Inr (vs, c'') \<Rightarrow> Inr (v # vs, c'')))"

fun py_max :: "int list \<Rightarrow> error + int" where
  "py_max [] = Inl ValueError"
| "py_max (x # xs) = Inr (fold max xs x)"

text \<open>
  The body of the undecorated \<^verbatim>\<open>get_level\<close>; \<open>rec\<close> is the global name \<^verbatim>\<open>get_level\<close>
  that the body calls, that is the memoizing wrapper.
\<close>

definition get_level_body :: "level_fun \<Rightarrow> level_fun" where
  "get_level_body rec base_dict key c =
     (case map_of base_dict key of
        None \<Rightarrow> Inl KeyError
      | Some deps \<Rightarrow>
          if length deps = 0 then Inr (0, c)
          else (case map_levels (rec base_dict) deps c of
                  Inl e \<Rightarrow> Inl e
                | Inr (ls, c') \<Rightarrow>
                    (case py_max ls of Inl e \<Rightarrow> Inl e | Inr m \<Rightarrow> Inr (1 + m, c'))))"

text \<open>
  \<^verbatim>\<open>get_level = memoize_level(get_level)\<close>. The first argument is the call depth the
  interpreter still allows, counted in calls of \<^verbatim>\<open>get_level\<close>; at depth \<open>0\<close> the call
  raises \<open>RecursionError\<close>.
\<close>

primrec get_level :: "nat \<Rightarrow> level_fun" where
  "get_level 0 = (\<lambda>base_dict key c. Inl RecursionError)"
| "get_level (Suc n) = memoize_call (get_level_body (get_level n))"

text \<open>
  The loop \<^verbatim>\<open>for fname in funcs: l = get_level(funcs, fname);
  levels.setdefault(l, set()).add(fname)\<close>.
\<close>

type_synonym level_map = "(int \<times> pyset) list"

definition levels_add :: "int \<Rightarrow> string \<Rightarrow> level_map \<Rightarrow> level_map" where
  "levels_add l fname levels =
     (case map_of levels l of
        None \<Rightarrow> AList.update l (set_add fname []) levels
      | Some s \<Rightarrow> AList.update l (set_add fname s) levels)"

fun levels_loop :: "nat \<Rightarrow> func_table \<Rightarrow> string list \<Rightarrow> cache \<Rightarrow> level_map
    \<Rightarrow> error + level_map \<times> cache" where
  "levels_loop n funcs [] c levels = Inr (levels, c)"
| "levels_loop n funcs (fname # rest) c levels =
     (case get_level n funcs fname c of
        Inl e \<Rightarrow> Inl e
      | Inr (l, c') \<Rightarrow> levels_loop n funcs rest c' (levels_add l fname levels))"

definition compute_levels :: "nat \<Rightarrow> func_table \<Rightarrow> error + level_map \<times> cache" where
  "compute_levels n funcs = levels_loop n funcs (keys funcs) Map.empty []"

section \<open>Regular expressions of the lexer (lines 15 to 25)\<close>

text \<open>
  The fragment of Python's \<^verbatim>\<open>re\<close> syntax that \<^verbatim>\<open>token_spec\<close> uses: literal text, one
  character of a class, a greedy star of a class, sequence, alternation, an optional
  part and a named group. Groups without a name only bracket and are not represented.
  A class is a list of items, possibly negated. The text of a file is a list of
  8-bit characters; \<^verbatim>\<open>\w\<close> is modelled on the ASCII characters, where it matches letters,
  digits and the underscore.
\<close>

datatype item = Ch char | Range char char | WordChar

datatype cls = Pos "item list" | Neg "item list"

datatype regex =
    Lit string
  | One cls
  | Star cls
  | Seq regex regex
  | Alt regex regex
  | Opt regex
  | Group string regex

definition word_char :: "char \<Rightarrow> bool" where
  "word_char x =
     (let n = (of_char x :: nat)
      in (97 \<le> n \<and> n \<le> 122) \<or> (65 \<le> n \<and> n \<le> 90) \<or> (48 \<le> n \<and> n \<le> 57) \<or> n = 95)"

fun item_match :: "item \<Rightarrow> char \<Rightarrow> bool" where
  "item_match (Ch c) x = (x = c)"
| "item_match (Range a b) x = ((of_char a :: nat) \<le> of_char x \<and> (of_char x :: nat) \<le> of_char b)"
| "item_match WordChar x = word_char x"

fun cls_match :: "cls \<Rightarrow> char \<Rightarrow> bool" where
  "cls_match (Pos is) x = (\<exists>i\<in>set is. item_match i x)"
| "cls_match (Neg is) x = (\<not> (\<exists>i\<in>set is. item_match i x))"

text \<open>
  The matcher is a backtracking one. \<open>rmatch r (s, g)\<close> lists every way in which \<open>r\<close>
  matches a prefix of \<open>s\<close>, as the text that remains and the groups captured (starting
  from \<open>g\<close>), in the order in which the \<^verbatim>\<open>re\<close> module tries them: the first alternative
  before the second, the longest repetition before the shorter ones, the optional part
  present before absent. The match that \<^verbatim>\<open>re\<close> reports is the head of the list.
\<close>

type_synonym caps = "(string \<times> string) list"

fun star_cls :: "cls \<Rightarrow> string \<Rightarrow> string list" where
  "star_cls c [] = [[]]"
| "star_cls c (x # xs) = (if cls_match c x then star_cls c xs @ [x # xs] else [x # xs])"

fun rmatch :: "regex \<Rightarrow> string \<times> caps \<Rightarrow> (string \<times> caps) list" where
  "rmatch (Lit l) (s, g) = (if take (length l) s = l then [(drop (length l) s, g)] else [])"
| "rmatch (One c) (s, g) =
     (case s of [] \<Rightarrow> [] | x # xs \<Rightarrow> if cls_match c x then [(xs, g)] else [])"
| "rmatch (Star c) (s, g) = map (\<lambda>r. (r, g)) (star_cls c s)"
| "rmatch (Seq r1 r2) sg = concat (map (rmatch r2) (rmatch r1 sg))"
| "rmatch (Alt r1 r2) sg = rmatch r1 sg @ rmatch r2 sg"
| "rmatch (Opt r) sg = rmatch r sg @ [sg]"
| "rmatch (Group n r) (s, g) =
     map (\<lambda>(s', g'). (s', AList.update n (take (length s - length s') s) g')) (rmatch r (s, g))"

text \<open>\<^verbatim>\<open>IDENTIFIER_STR = r'[_a-zA-Z][_\w]*'\<close>\<close>

definition IDENTIFIER_STR :: regex where
  "IDENTIFIER_STR =
     Seq (One (Pos [Ch CHR ''_'', Range CHR ''a'' CHR ''z'', Range CHR ''A'' CHR ''Z'']))
         (Star (Pos [Ch CHR ''_'', WordChar]))"

text \<open>
  \<^verbatim>\<open>'IGNORE': r'//[^\n]r'\<close>: two slashes, one character that is not a newline, and the
  letter \<open>r\<close>.
\<close>

definition IGNORE_re :: regex where
  "IGNORE_re = Seq (Lit ''//'') (Seq (One (Neg [Ch (CHR 0x0A)])) (Lit ''r''))"

text \<open>
  \<^verbatim>\<open>'FUNCSTART': r'(((export )?(async )?function)|((public|private)( async)?( static)?))
  (?P<funcname>%s)[^);]*\)([^{;]*{)' % IDENTIFIER_STR\<close>
\<close>

definition funcstart_head :: regex where
  "funcstart_head =
     Alt (Seq (Opt (Lit ''export '')) (Seq (Opt (Lit ''async '')) (Lit ''function'')))
         (Seq (Alt (Lit ''public'') (Lit ''private''))
              (Seq (Opt (Lit '' async'')) (Opt (Lit '' static''))))"

definition FUNCSTART_re :: regex where
  "FUNCSTART_re =
     Seq funcstart_head
    (Seq (Lit '' '')
    (Seq (Group ''funcname'' IDENTIFIER_STR)
    (Seq (Star (Neg [Ch CHR '')'', Ch CHR '';'']))
    (Seq (Lit '')'')
    (Seq (Star (Neg [Ch CHR ''{'', Ch CHR '';''])) (Lit ''{''))))))"

definition token_spec :: "(string \<times> regex) list" where
  "token_spec =
     [(''IGNORE'', IGNORE_re),
      (''FUNCSTART'', FUNCSTART_re),
      (''IDENTIFIER'', IDENTIFIER_STR),
      (''OPEN_PAREN'', Lit ''{''),
      (''CLOSE_PAREN'', Lit ''}''),
      (''NEWLINE'', Lit [CHR 0x0A])]"

text \<open>\<^verbatim>\<open>'|'.join('(?P<%s>%s)' % pair for pair in token_spec.items())\<close>\<close>

fun join_alts :: "(string \<times> regex) list \<Rightarrow> regex" where
  "join_alts [] = Lit []"
| "join_alts [(n, r)] = Group n r"
| "join_alts ((n, r) # rest) = Alt (Group n r) (join_alts rest)"

definition TOKEN_REGEX :: regex where
  "TOKEN_REGEX = join_alts token_spec"

text \<open>
  A match object: \<^verbatim>\<open>lastgroup\<close>, \<^verbatim>\<open>group()\<close>, \<^verbatim>\<open>start()\<close> and \<^verbatim>\<open>end()\<close>. \<^verbatim>\<open>lastgroup\<close> is
  the name of the group that closed last. No group of \<^verbatim>\<open>token_spec\<close> is inside a
  repetition, so every group closes at most once and the capture list is in closing
  order.
\<close>

record match_obj =
  lastgroup :: "string option"
  mgroup :: string
  mstart :: nat
  mend :: nat

definition last_group :: "caps \<Rightarrow> string option" where
  "last_group g = (case g of [] \<Rightarrow> None | _ \<Rightarrow> Some (fst (last g)))"

text \<open>
  \<^verbatim>\<open>finditer\<close>: the matches from left to right, without overlap; a position where
  nothing matches is skipped. No alternative of \<^verbatim>\<open>TOKEN_REGEX\<close> matches the empty text;
  after an empty match the search would go on at the next character.
\<close>

fun finditer :: "regex \<Rightarrow> nat \<Rightarrow> string \<Rightarrow> match_obj list" where
  "finditer r pos [] = []"
| "finditer r pos (x # xs) =
     (case rmatch r (x # xs, []) of
        [] \<Rightarrow> finditer r (Suc pos) xs
      | (rest, g) # _ \<Rightarrow>
          (let n = length (x # xs) - length rest
           in \<lparr>lastgroup = last_group g, mgroup = take n (x # xs), mstart = pos, mend = pos + n\<rparr>
              # finditer r (pos + max n 1) (drop (n - 1) xs)))"

section \<open>Scan state machine and file driver (lines 28 to 190)\<close>

text \<open>The named tuple \<^verbatim>\<open>Token\<close>; its field \<^verbatim>\<open>value\<close> is \<open>tvalue\<close> here.\<close>

record token =
  kind :: "string option"
  tvalue :: string
  line :: int
  column :: int

text \<open>The subclasses of \<^verbatim>\<open>State\<close>. \<^verbatim>\<open>ErrorState\<close> is defined by the code and never used.\<close>

datatype state =
    Start
  | ReadData
  | GetNextToken
  | FuncStartState
  | EndFunc
  | ReadFunc
  | EndState
  | ErrorState error

text \<open>
  The attributes of a \<^verbatim>\<open>FileContext\<close>. \<open>tok_itr\<close> is the rest of the match iterator.
  \<open>token\<close> is \<open>None\<close> until the first token is read; the handler of \<^verbatim>\<open>FileContext.run\<close>
  reads it. The attributes \<^verbatim>\<open>curr_func_name\<close>, \<^verbatim>\<open>curr_func_ids\<close> and \<^verbatim>\<open>paren_level\<close> do
  not exist before \<^verbatim>\<open>FuncStartState\<close> sets them and are not read before. \<open>stdout\<close>
  collects the lines printed while the file is scanned.
\<close>

record ctx =
  path :: string
  funcs :: func_table
  line_num :: int
  line_start :: int
  tok_itr :: "match_obj list"
  token :: "token option"
  curr_func_name :: string
  curr_func_ids :: pyset
  paren_level :: int
  stdout :: "string list"

text \<open>The files of the scanned tree, by path; \<open>None\<close> for a file that cannot be read.\<close>

type_synonym filesystem = "string \<Rightarrow> string option"

text \<open>
  \<^verbatim>\<open>re.match(token_spec['FUNCSTART'], value)['funcname']\<close>, \<open>None\<close> when there is no
  match (subscripting the result then raises \<open>TypeError\<close>). The group \<open>funcname\<close> is
  not optional in the pattern, so every match captures it.
\<close>

definition re_match_funcname :: "string \<Rightarrow> string option" where
  "re_match_funcname v =
     (case rmatch FUNCSTART_re (v, []) of
        [] \<Rightarrow> None
      | (rest, g) # _ \<Rightarrow> map_of g ''funcname'')"

text \<open>\<^verbatim>\<open>GetNextToken._get_next_token\<close>; \<^verbatim>\<open>next\<close> raises \<open>StopIteration\<close> at the end.\<close>

definition get_next_token :: "ctx \<Rightarrow> error + token \<times> ctx" where
  "get_next_token c =
     (case tok_itr c of
        [] \<Rightarrow> Inl StopIteration
      | mo # rest \<Rightarrow>
          (let tok = \<lparr>kind = lastgroup mo, tvalue = mgroup mo, line = line_num c,
                      column = int (mstart mo) - line_start c\<rparr>;
               c' = c\<lparr>tok_itr := rest\<rparr>
           in if lastgroup mo = Some ''NEWLINE''
              then Inr (tok, c'\<lparr>line_start := int (mend mo), line_num := line_num c + 1\<rparr>)
              else Inr (tok, c')))"

definition nested_notice :: "string \<Rightarrow> string \<Rightarrow> string" where
  "nested_notice nested_func_name p =
     ''Found nested function '' @ [CHR 0x27] @ nested_func_name @ [CHR 0x27] @ '' in ''
       @ [CHR 0x27] @ p @ [CHR 0x27] @ ''. Determine dependencies manually''"

text \<open>
  The method \<^verbatim>\<open>do\<close> of each state: the next state (\<open>None\<close> ends the run) and the
  context, or the exception raised together with the context at that moment.
\<close>

fun do_state :: "filesystem \<Rightarrow> state \<Rightarrow> ctx \<Rightarrow> error \<times> ctx + state option \<times> ctx" where
  "do_state fs Start c = Inr (Some ReadData, c)"
| "do_state fs ReadData c =
     (case fs (path c) of
        None \<Rightarrow> Inl (OSError, c)
      | Some data \<Rightarrow> Inr (Some GetNextToken, c\<lparr>tok_itr := finditer TOKEN_REGEX 0 data\<rparr>))"
| "do_state fs GetNextToken c =
     (case get_next_token c of
        Inl e \<Rightarrow> (if e = StopIteration then Inr (Some EndState, c) else Inl (e, c))
      | Inr (tok, c') \<Rightarrow>
          (let c'' = c'\<lparr>token := Some tok\<rparr>
           in if kind tok = Some ''FUNCSTART'' then Inr (Some FuncStartState, c'')
              else Inr (Some GetNextToken, c'')))"
| "do_state fs FuncStartState c =
     (case token c of
        None \<Rightarrow> Inl (AttributeError, c)
      | Some tok \<Rightarrow>
          (case re_match_funcname (tvalue tok) of
             None \<Rightarrow> Inl (TypeError, c)
           | Some name \<Rightarrow>
               Inr (Some ReadFunc,
                    c\<lparr>curr_func_name := name, curr_func_ids := [],
                      paren_level := (if CHR ''{'' \<in> set (tvalue tok) then 1 else 0)\<rparr>)))"
| "do_state fs EndFunc c =
     Inr (Some GetNextToken,
          c\<lparr>funcs := AList.update (curr_func_name c) (curr_func_ids c) (funcs c)\<rparr>)"
| "do_state fs ReadFunc c =
     (case get_next_token c of
        Inl e \<Rightarrow> Inl (e, c)
      | Inr (tok, c') \<Rightarrow>
          (let c'' = c'\<lparr>token := Some tok\<rparr>
           in if kind tok = Some ''FUNCSTART'' then
                (case re_match_funcname (tvalue tok) of
                   None \<Rightarrow> Inl (TypeError, c'')
                 | Some nested_func_name \<Rightarrow>
                     Inr (Some ReadFunc,
                          c''\<lparr>stdout := stdout c'' @ [nested_notice nested_func_name (path c'')]\<rparr>))
              else if kind tok = Some ''IDENTIFIER'' then
                Inr (Some ReadFunc, c''\<lparr>curr_func_ids := set_add (tvalue tok) (curr_func_ids c'')\<rparr>)
              else if kind tok = Some ''OPEN_PAREN'' then
                Inr (Some ReadFunc, c''\<lparr>paren_level := paren_level c'' + 1\<rparr>)
              else if kind tok = Some ''CLOSE_PAREN'' then
                (if paren_level c'' - 1 = 0
                 then Inr (Some EndFunc, c''\<lparr>paren_level := paren_level c'' - 1\<rparr>)
                 else Inr (Some ReadFunc, c''\<lparr>paren_level := paren_level c'' - 1\<rparr>))
              else Inr (Some ReadFunc, c'')))"
| "do_state fs EndState c = Inr (None, c)"
| "do_state fs (ErrorState err) c = Inl (err, c)"

text \<open>
  \<^verbatim>\<open>Context.run\<close>: the loop \<^verbatim>\<open>while self._run_once(): pass\<close>. It ends: every second step
  at the latest consumes a match.
\<close>

definition data_tokens :: "filesystem \<Rightarrow> string \<Rightarrow> nat" where
  "data_tokens fs p =
     (case fs p of None \<Rightarrow> 0 | Some data \<Rightarrow> length (finditer TOKEN_REGEX 0 data))"

fun run_measure :: "filesystem \<times> state \<times> ctx \<Rightarrow> nat" where
  "run_measure (fs, Start, c) = 2 * data_tokens fs (path c) + 5"
| "run_measure (fs, ReadData, c) = 2 * data_tokens fs (path c) + 4"
| "run_measure (fs, GetNextToken, c) = 2 * length (tok_itr c) + 2"
| "run_measure (fs, FuncStartState, c) = 2 * length (tok_itr c) + 3"
| "run_measure (fs, EndFunc, c) = 2 * length (tok_itr c) + 3"
| "run_measure (fs, ReadFunc, c) = 2 * length (tok_itr c) + 2"
| "run_measure (fs, EndState, c) = 1"
| "run_measure (fs, ErrorState err, c) = 1"

function run :: "filesystem \<Rightarrow> state \<Rightarrow> ctx \<Rightarrow> error \<times> ctx + ctx" where
  "run fs st c =
     (case do_state fs st c of
        Inl (e, c') \<Rightarrow> Inl (e, c')
      | Inr (None, c') \<Rightarrow> Inr c'
      | Inr (Some st', c') \<Rightarrow> run fs st' c')"
  by pat_completeness auto
termination
proof (relation "measure run_measure")
  show "wf (measure run_measure)" by simp
next
  fix fs st c x st' c' y
  assume "do_state fs st c = Inr x" "(y, c') = x" "y = Some st'"
  then have d: "do_state fs st c = Inr (Some st', c')" by simp
  show "((fs, st', c'), (fs, st, c)) \<in> measure run_measure"
  proof (cases st)
    case Start
    then show ?thesis using d by auto
  next
    case ReadData
    then show ?thesis using d by (auto simp: data_tokens_def split: option.splits)
  next
    case GetNextToken
    then show ?thesis using d
      by (auto simp: get_next_token_def Let_def split: list.splits if_splits)
  next
    case FuncStartState
    then show ?thesis using d by (auto split: option.splits)
  next
    case EndFunc
    then show ?thesis using d by auto
  next
    case ReadFunc
    then show ?thesis using d
      by (auto simp: get_next_token_def Let_def split: list.splits if_splits option.splits)
  next
    case EndState
    then show ?thesis using d by auto
  next
    case (ErrorState e)
    then show ?thesis using d by auto
  qed
qed

text \<open>\<^verbatim>\<open>FileContext.__init__\<close>\<close>

definition FileContext :: "string \<Rightarrow> ctx" where
  "FileContext p =
     \<lparr>path = p, funcs = [], line_num = 1, line_start = 0, tok_itr = [], token = None,
      curr_func_name = [], curr_func_ids = [], paren_level = 0, stdout = []\<rparr>"

text \<open>Decimal numerals, as an f-string formats an \<^verbatim>\<open>int\<close>.\<close>

fun str_nat :: "nat \<Rightarrow> string" where
  "str_nat n =
     (if n < 10 then [char_of (48 + n)] else str_nat (n div 10) @ [char_of (48 + n mod 10)])"

definition str_int :: "int \<Rightarrow> string" where
  "str_int i = (if i < 0 then CHR ''-'' # str_nat (nat (- i)) else str_nat (nat i))"

definition error_line :: "string \<Rightarrow> token \<Rightarrow> string" where
  "error_line p tok =
     ''Error found after '' @ p @ '':'' @ str_int (line tok) @ '':'' @ str_int (column tok)
       @ '': '' @ [CHR 0x27] @ tvalue tok @ [CHR 0x27]"

text \<open>
  \<^verbatim>\<open>FileContext.run\<close>: on any exception one line goes to \<^verbatim>\<open>stderr\<close> and the exception is
  raised again. The result of a failed run is the exception, the lines written to
  \<^verbatim>\<open>stderr\<close> by the code and the context. The handler reads \<^verbatim>\<open>self.token\<close>, which raises
  \<open>AttributeError\<close> when no token has been read.
\<close>

definition FileContext_run :: "filesystem \<Rightarrow> ctx \<Rightarrow> error \<times> string list \<times> ctx + ctx" where
  "FileContext_run fs c =
     (case run fs Start c of
        Inr c' \<Rightarrow> Inr c'
      | Inl (e, c') \<Rightarrow>
          (case token c' of
             None \<Rightarrow> Inl (AttributeError, [], c')
           | Some tok \<Rightarrow> Inl (e, [error_line (path c') tok], c')))"

section \<open>Aggregation over the files (module level, lines 224 to 231)\<close>

text \<open>
  The loop \<^verbatim>\<open>for path in list_files(path_root)\<close> over the paths in the order of the
  walk, with the global tables \<^verbatim>\<open>funcs\<close> (\<open>all_funcs\<close> here) and \<^verbatim>\<open>func_paths\<close> and the
  lines printed so far. An exception of a file's run is not caught: it ends the loop.
\<close>

fun scan_files :: "filesystem \<Rightarrow> string list \<Rightarrow> func_table \<Rightarrow> string pydict \<Rightarrow> string list
    \<Rightarrow> error \<times> string list \<times> string list + func_table \<times> string pydict \<times> string list" where
  "scan_files fs [] all_funcs func_paths out = Inr (all_funcs, func_paths, out)"
| "scan_files fs (p # rest) all_funcs func_paths out =
     (case FileContext_run fs (FileContext p) of
        Inl (e, err, c) \<Rightarrow> Inl (e, err, out @ stdout c)
      | Inr c \<Rightarrow>
          scan_files fs rest
            (dict_ior all_funcs (funcs c))
            (dict_ior func_paths (map (\<lambda>f. (f, p)) (keys (funcs c))))
            (out @ stdout c))"

section \<open>Notions used to state the properties of the scanner\<close>

text \<open>The configurations that the state machine passes through.\<close>

inductive reaches :: "filesystem \<Rightarrow> state \<times> ctx \<Rightarrow> state \<times> ctx \<Rightarrow> bool" for fs where
  here: "reaches fs sc sc"
| step: "do_state fs st c = Inr (Some st', c') \<Longrightarrow> reaches fs (st', c') sc \<Longrightarrow>
         reaches fs (st, c) sc"

text \<open>A pattern without a named group.\<close>

fun no_groups :: "regex \<Rightarrow> bool" where
  "no_groups (Lit l) = True"
| "no_groups (One c) = True"
| "no_groups (Star c) = True"
| "no_groups (Seq r1 r2) = (no_groups r1 \<and> no_groups r2)"
| "no_groups (Alt r1 r2) = (no_groups r1 \<and> no_groups r2)"
| "no_groups (Opt r) = no_groups r"
| "no_groups (Group n r) = False"

text \<open>
  What reading a token list does inside a body: \<open>body_depth d ms\<close> is the brace depth
  after the tokens \<open>ms\<close>, read from depth \<open>d\<close>; \<open>in_body d ms\<close> says that no closing
  brace among them brings the depth to \<open>0\<close>; \<open>idents ms\<close> are the texts of the
  identifier tokens; \<open>notices p ms\<close> are the notices printed for the \<open>FUNCSTART\<close> tokens.
  A \<open>FUNCSTART\<close> token leaves the depth as it is.
\<close>

fun body_depth :: "int \<Rightarrow> match_obj list \<Rightarrow> int" where
  "body_depth d [] = d"
| "body_depth d (m # ms) =
     (if lastgroup m = Some ''OPEN_PAREN'' then body_depth (d + 1) ms
      else if lastgroup m = Some ''CLOSE_PAREN'' then body_depth (d - 1) ms
      else body_depth d ms)"

fun in_body :: "int \<Rightarrow> match_obj list \<Rightarrow> bool" where
  "in_body d [] = True"
| "in_body d (m # ms) =
     (if lastgroup m = Some ''OPEN_PAREN'' then in_body (d + 1) ms
      else if lastgroup m = Some ''CLOSE_PAREN'' then d - 1 \<noteq> 0 \<and> in_body (d - 1) ms
      else in_body d ms)"

definition idents :: "match_obj list \<Rightarrow> string set" where
  "idents ms = {mgroup m | m. m \<in> set ms \<and> lastgroup m = Some ''IDENTIFIER''}"

fun notices :: "string \<Rightarrow> match_obj list \<Rightarrow> string list" where
  "notices p [] = []"
| "notices p (m # ms) =
     (if lastgroup m = Some ''FUNCSTART''
      then (case re_match_funcname (mgroup m) of
              None \<Rightarrow> notices p ms
            | Some name \<Rightarrow> nested_notice name p # notices p ms)
      else notices p ms)"


section \<open>Example inputs\<close>

text \<open>
  \<open>scenario_C\<close> is Scenario C of the specification, \<open>nested_then_more\<close> has an identifier
  after the nested function, and \<open>nested_twice\<close> nests a declaration in a nested
  declaration. \<open>in_outer toks\<close> is the context of a file \<^verbatim>\<open>a.ts\<close> after the head of
  \<open>outer\<close> has been read at the start of the file, with the tokens \<open>toks\<close> to come.
\<close>

definition mk_match :: "string \<Rightarrow> string \<Rightarrow> nat \<Rightarrow> nat \<Rightarrow> match_obj" where
  "mk_match k v s e = \<lparr>lastgroup = Some k, mgroup = v, mstart = s, mend = e\<rparr>"

definition scenario_C :: string where
  "scenario_C = ''function outer(){ function inner(){ helper(); } }''"

definition scenario_C_tokens :: "match_obj list" where
  "scenario_C_tokens =
     [mk_match ''FUNCSTART'' ''function outer(){'' 0 17,
      mk_match ''FUNCSTART'' ''function inner(){'' 18 35,
      mk_match ''IDENTIFIER'' ''helper'' 36 42,
      mk_match ''CLOSE_PAREN'' ''}'' 46 47,
      mk_match ''CLOSE_PAREN'' ''}'' 48 49]"

definition in_outer :: "match_obj list \<Rightarrow> ctx" where
  "in_outer toks =
     \<lparr>path = ''a.ts'', funcs = [], line_num = 1, line_start = 0, tok_itr = toks,
      token = Some \<lparr>kind = Some ''FUNCSTART'', tvalue = ''function outer(){'', line = 1,
                    column = 0\<rparr>,
      curr_func_name = ''outer'', curr_func_ids = [], paren_level = 1, stdout = []\<rparr>"

definition nested_then_more :: string where
  "nested_then_more = ''function outer(){ function inner(){ a(); } b(); }''"

definition nested_then_more_tokens :: "match_obj list" where
  "nested_then_more_tokens =
     [mk_match ''FUNCSTART'' ''function outer(){'' 0 17,
      mk_match ''FUNCSTART'' ''function inner(){'' 18 35,
      mk_match ''IDENTIFIER'' ''a'' 36 37,
      mk_match ''CLOSE_PAREN'' ''}'' 41 42,
      mk_match ''IDENTIFIER'' ''b'' 43 44,
      mk_match ''CLOSE_PAREN'' ''}'' 48 49]"

definition nested_twice :: string where
  "nested_twice = ''function outer(){ function inner(){ function deep(){ x(); } y(); } }''"

text \<open>
  \<open>unbalanced\<close> ends inside the body of \<open>f\<close>; \<open>two_dups\<close> is a tree of two files that
  both declare \<open>dup\<close>.
\<close>

definition unbalanced :: string where
  "unbalanced = ''function f(){\<newline>  if (a) {\<newline> b();''"

definition two_dups :: filesystem where
  "two_dups = [''a.ts'' \<mapsto> ''function dup(){ x(); }'', ''b.ts'' \<mapsto> ''function dup(){ y(); }'']"

section \<open>Notions used to state the properties of the level calculator\<close>

text \<open>
  The dependency graph of a function table: an edge from \<open>f\<close> to every element of the
  identifier set stored for \<open>f\<close>. A table is closed when every such element is a key.
\<close>

definition dep_rel :: "func_table \<Rightarrow> (string \<times> string) set" where
  "dep_rel g = {(f, d). \<exists>ds. map_of g f = Some ds \<and> d \<in> set ds}"

definition closed_graph :: "func_table \<Rightarrow> bool" where
  "closed_graph g = (\<forall>f ds. map_of g f = Some ds \<longrightarrow> set ds \<subseteq> set (keys g))"

text \<open>\<open>fname in levels[l]\<close>, false when \<open>l\<close> is not a key of \<open>levels\<close>.\<close>

definition at_level :: "level_map \<Rightarrow> int \<Rightarrow> string \<Rightarrow> bool" where
  "at_level levels l f = (case map_of levels l of None \<Rightarrow> False | Some s \<Rightarrow> f \<in> set s)"

text \<open>
  The results of the undecorated recursion of \<^verbatim>\<open>get_level\<close>, as a relation: the two
  branches of its body, with the values of the recursive calls in \<open>v # vs\<close>.
\<close>

inductive level_of :: "func_table \<Rightarrow> string \<Rightarrow> int \<Rightarrow> bool" for g where
  leaf: "map_of g f = Some [] \<Longrightarrow> level_of g f 0"
| node: "map_of g f = Some (d # ds) \<Longrightarrow> list_all2 (level_of g) (d # ds) (v # vs) \<Longrightarrow>
         level_of g f (1 + fold max vs v)"

text \<open>A cache is sound for a graph when every value stored for the graph is a level.\<close>

definition sound :: "func_table \<Rightarrow> cache \<Rightarrow> bool" where
  "sound g c = (\<forall>k w. c (cache_key g k) = Some w \<longrightarrow> level_of g k w)"

text \<open>A function from which a dependency cycle can be reached.\<close>

definition on_cycle_path :: "func_table \<Rightarrow> string \<Rightarrow> bool" where
  "on_cycle_path g f = (\<exists>x. (f, x) \<in> (dep_rel g)\<^sup>* \<and> (x, x) \<in> (dep_rel g)\<^sup>+)"

definition cache_avoids :: "func_table \<Rightarrow> cache \<Rightarrow> bool" where
  "cache_avoids g c =
     (\<forall>k w. c (cache_key g k) = Some w \<longrightarrow> w \<noteq> 0 \<longrightarrow> \<not> on_cycle_path g k)"

definition cyc_ok :: "func_table \<Rightarrow> string \<Rightarrow> (error + int \<times> cache) \<Rightarrow> bool" where
  "cyc_ok g f r =
     (case r of
        Inl e \<Rightarrow> e = RecursionError
      | Inr (v, c') \<Rightarrow> \<not> on_cycle_path g f \<and> cache_avoids g c')"

section \<open>Properties of the dependency filter\<close>

lemma set_set_add [simp]: "set (set_add x s) = insert x (set s)"
  by (auto simp: set_add_def)

lemma keys_update_existing:
  "k \<in> set (keys d) \<Longrightarrow> keys (AList.update k v d) = keys d"
  by (simp add: keys_def update_keys)

lemma filter_inner_keys:
  "fname \<in> set (keys table) \<Longrightarrow> keys (filter_inner fname deps acc table) = keys table"
  by (induction deps arbitrary: acc table) (simp_all add: Let_def keys_update_existing)

lemma filter_inner_other:
  "f \<noteq> fname \<Longrightarrow> map_of (filter_inner fname deps acc table) f = map_of table f"
  by (induction deps arbitrary: acc table) (simp_all add: Let_def update_conv')

lemma filter_inner_self:
  "fname \<in> set (keys table) \<Longrightarrow> deps \<noteq> [] \<Longrightarrow>
   \<exists>v. map_of (filter_inner fname deps acc table) fname = Some v \<and>
       set v = set acc \<union> {d \<in> set deps. d \<in> set (keys table)}"
proof (induction deps arbitrary: acc table)
  case Nil
  then show ?case by simp
next
  case (Cons d deps)
  let ?acc = "if d \<in> set (keys table) then set_add d acc else acc"
  let ?table = "AList.update fname ?acc table"
  have k: "keys ?table = keys table"
    using Cons.prems(1) by (rule keys_update_existing)
  show ?case
  proof (cases "deps = []")
    case True
    then show ?thesis by (auto simp: Let_def update_conv')
  next
    case False
    have "fname \<in> set (keys ?table)" using k Cons.prems(1) by simp
    from Cons.IH [OF this False, of ?acc]
    obtain v where v: "map_of (filter_inner fname deps ?acc ?table) fname = Some v"
      "set v = set ?acc \<union> {d \<in> set deps. d \<in> set (keys ?table)}" by blast
    show ?thesis
      using v k by (auto simp: Let_def)
  qed
qed

lemma filter_inner_value:
  assumes "map_of table fname = Some deps"
  shows "\<exists>v. map_of (filter_inner fname deps [] table) fname = Some v \<and>
       set v = {d \<in> set deps. d \<in> set (keys table)}"
proof (cases "deps = []")
  case True
  then show ?thesis using assms by simp
next
  case False
  have "fname \<in> set (keys table)"
    using assms by (auto simp: keys_def dest: map_of_SomeD intro: rev_image_eqI)
  from filter_inner_self [OF this False, of "[]"] show ?thesis by simp
qed

lemma map_of_Some_keys: "map_of d k = Some v \<Longrightarrow> k \<in> set (keys d)"
  by (auto simp: keys_def dest: map_of_SomeD intro: rev_image_eqI)

lemma filter_outer_spec:
  "keys (filter_outer ks table) = keys table \<and>
   (\<forall>f v. map_of table f = Some v \<longrightarrow>
      (\<exists>v'. map_of (filter_outer ks table) f = Some v' \<and>
            set v' = (if f \<in> set ks then {d \<in> set v. d \<in> set (keys table)} else set v)))"
proof (induction ks arbitrary: table)
  case Nil
  show ?case by simp
next
  case (Cons fname rest)
  show ?case
  proof (cases "map_of table fname")
    case None
    have "\<exists>v'. map_of (filter_outer (fname # rest) table) f = Some v' \<and>
            set v' = (if f \<in> set (fname # rest) then {d \<in> set v. d \<in> set (keys table)} else set v)"
      if fv: "map_of table f = Some v" for f v
    proof -
      have ne: "f \<noteq> fname" using fv None by auto
      from Cons.IH [of table] fv
      obtain v' where "map_of (filter_outer rest table) f = Some v'"
        "set v' = (if f \<in> set rest then {d \<in> set v. d \<in> set (keys table)} else set v)"
        by blast
      then show ?thesis using None ne by simp
    qed
    moreover have "keys (filter_outer (fname # rest) table) = keys table"
      using None Cons.IH [of table] by simp
    ultimately show ?thesis by blast
  next
    case (Some deps)
    let ?table = "filter_inner fname deps [] table"
    have mem: "fname \<in> set (keys table)"
      using Some by (rule map_of_Some_keys)
    have k: "keys ?table = keys table" using mem by (rule filter_inner_keys)
    obtain w where w: "map_of ?table fname = Some w"
      "set w = {d \<in> set deps. d \<in> set (keys table)}"
      using filter_inner_value [OF Some] by blast
    have other: "\<And>f. f \<noteq> fname \<Longrightarrow> map_of ?table f = map_of table f"
      by (rule filter_inner_other)
    have keq: "keys (filter_outer (fname # rest) table) = keys table"
      using Some Cons.IH [of ?table] k by simp
    have "\<exists>v'. map_of (filter_outer (fname # rest) table) f = Some v' \<and>
            set v' = (if f \<in> set (fname # rest) then {d \<in> set v. d \<in> set (keys table)} else set v)"
      if fv: "map_of table f = Some v" for f v
    proof (cases "f = fname")
      case True
      with fv Some have vd: "v = deps" by simp
      from Cons.IH [of ?table] w(1) True
      obtain v' where v': "map_of (filter_outer rest ?table) f = Some v'"
        "set v' = (if f \<in> set rest then {d \<in> set w. d \<in> set (keys ?table)} else set w)"
        by blast
      have "set v' = {d \<in> set v. d \<in> set (keys table)}"
        using v'(2) w(2) k vd by auto
      then show ?thesis using v'(1) Some True by simp
    next
      case False
      then have "map_of ?table f = Some v" using other fv by simp
      with Cons.IH [of ?table]
      obtain v' where v': "map_of (filter_outer rest ?table) f = Some v'"
        "set v' = (if f \<in> set rest then {d \<in> set v. d \<in> set (keys ?table)} else set v)"
        by blast
      then show ?thesis using Some False k by simp
    qed
    then show ?thesis using keq by blast
  qed
qed

lemma filter_deps_keys: "keys (filter_deps table) = keys table"
  using filter_outer_spec [of "keys table" table] by (simp add: filter_deps_def)

lemma filter_deps_value:
  assumes "map_of table f = Some raw"
  shows "\<exists>filtered. map_of (filter_deps table) f = Some filtered \<and>
       set filtered = {d \<in> set raw. d \<in> set (keys table)}"
proof -
  have "f \<in> set (keys table)"
    using assms by (rule map_of_Some_keys)
  moreover from filter_outer_spec [of "keys table" table] assms
  obtain v' where "map_of (filter_outer (keys table) table) f = Some v'"
    "set v' = (if f \<in> set (keys table) then {d \<in> set raw. d \<in> set (keys table)} else set raw)"
    by blast
  ultimately show ?thesis by (simp add: filter_deps_def)
qed

text \<open>
  Claim C2. After the dependency-filter loop every function's identifier set is, as a
  set, the part of its raw identifier set whose elements are keys of the global function
  table. So the filtered set lies within the discovered function names, and a function
  that names itself keeps itself as a dependency.
\<close>

theorem filter_deps_subset_of_raw_in_table:
  assumes "map_of table f = Some raw"
  shows "\<exists>filtered. map_of (filter_deps table) f = Some filtered \<and>
       set filtered = {d \<in> set raw. d \<in> set (keys table)} \<and>
       set filtered \<subseteq> set (keys (filter_deps table)) \<and>
       (f \<in> set raw \<longrightarrow> f \<in> set filtered)"
proof -
  obtain filtered where fl: "map_of (filter_deps table) f = Some filtered"
    "set filtered = {d \<in> set raw. d \<in> set (keys table)}"
    using filter_deps_value [OF assms] by blast
  have "f \<in> set (keys table)" using assms by (rule map_of_Some_keys)
  then show ?thesis using fl by (auto simp: filter_deps_keys)
qed

theorem filter_deps_subset_of_raw_in_table_witness:
  "map_of [(''foo'', [''bar'', ''x'', ''foo'']), (''bar'', [])] ''foo''
     = Some [''bar'', ''x'', ''foo''] \<and>
   (\<exists>filtered.
       map_of (filter_deps [(''foo'', [''bar'', ''x'', ''foo'']), (''bar'', [])]) ''foo''
         = Some filtered \<and>
       set filtered = {d \<in> set [''bar'', ''x'', ''foo''].
          d \<in> set (keys [(''foo'', [''bar'', ''x'', ''foo'']), (''bar'', [])])} \<and>
       set filtered
         \<subseteq> set (keys (filter_deps [(''foo'', [''bar'', ''x'', ''foo'']), (''bar'', [])])) \<and>
       (''foo'' \<in> set [''bar'', ''x'', ''foo''] \<longrightarrow> ''foo'' \<in> set filtered))"
  using filter_deps_subset_of_raw_in_table
    [of "[(''foo'', [''bar'', ''x'', ''foo'']), (''bar'', [])]" "''foo''"
        "[''bar'', ''x'', ''foo'']"]
  by simp

section \<open>Properties of the memoizing wrapper\<close>

lemma memoize_call_hit:
  "c (cache_key base_dict key) = Some v \<Longrightarrow> v \<noteq> 0 \<Longrightarrow>
   memoize_call func base_dict key c = Inr (v, c)"
  by (simp add: memoize_call_def)

lemma memoize_call_zero:
  "c (cache_key base_dict key) = Some 0 \<Longrightarrow>
   memoize_call func base_dict key c =
     (case func base_dict key c of
        Inl e \<Rightarrow> Inl e
      | Inr (result, c') \<Rightarrow> Inr (result, c'(cache_key base_dict key \<mapsto> result)))"
  by (simp add: memoize_call_def)

text \<open>
  Claim C6 (the code departs from it). The first call for a function without
  dependencies stores level \<open>0\<close> under its cache key. A second call with that cache does
  not return the stored value: the truth test on the cached \<open>0\<close> fails and the wrapped
  function runs again, shown here by wrapping a function that raises.
\<close>

theorem memoize_level_zero_not_reused:
  "get_level 1 [(''leaf'', [])] ''leaf'' Map.empty
     = Inr (0, [([''leaf''], ''leaf'') \<mapsto> 0]) \<and>
   cache_key [(''leaf'', [])] ''leaf'' = ([''leaf''], ''leaf'') \<and>
   memoize_call (\<lambda>base_dict key c. Inl ValueError) [(''leaf'', [])] ''leaf''
       [([''leaf''], ''leaf'') \<mapsto> 0]
     = Inl ValueError"
  by (simp add: memoize_call_def get_level_body_def cache_key_def keys_def)

section \<open>Levels of an acyclic graph\<close>

lemma list_all2_det:
  "list_all2 (\<lambda>x y. \<forall>w. P x w \<longrightarrow> y = w) xs ys \<Longrightarrow> list_all2 P xs zs \<Longrightarrow> ys = zs"
proof (induction xs ys arbitrary: zs rule: list_all2_induct)
  case Nil
  then show ?case by simp
next
  case (Cons x xs y ys)
  then show ?case by (auto simp: list_all2_Cons1)
qed

lemma level_of_det: "level_of g f v \<Longrightarrow> level_of g f w \<Longrightarrow> v = w"
proof (induction arbitrary: w rule: level_of.induct)
  case (leaf f)
  then show ?case by (auto elim: level_of.cases)
next
  case (node f d ds v vs)
  from node.prems node.hyps(1) obtain v' vs' where
    w: "w = 1 + fold max vs' v'" and l: "list_all2 (level_of g) (d # ds) (v' # vs')"
    by (auto elim: level_of.cases)
  have "list_all2 (\<lambda>x y. \<forall>w. level_of g x w \<longrightarrow> y = w) (d # ds) (v # vs)"
    using node.IH by (rule list_all2_mono) blast
  then have "v # vs = v' # vs'" using l
    by (rule list_all2_det)
  then show ?case using w by simp
qed


lemma map_levels_all2:
  "list_all2 (\<lambda>d v. \<forall>c. Q c \<longrightarrow> (\<exists>c'. f d c = Inr (v, c') \<and> Q c')) ds vs \<Longrightarrow> Q c \<Longrightarrow>
   \<exists>c'. map_levels f ds c = Inr (vs, c') \<and> Q c'"
proof (induction ds vs arbitrary: c rule: list_all2_induct)
  case Nil
  then show ?case by simp
next
  case (Cons d ds v vs)
  from Cons.hyps(1) Cons.prems obtain c1 where c1: "f d c = Inr (v, c1)" "Q c1" by blast
  from Cons.IH [OF c1(2)] obtain c2 where "map_levels f ds c1 = Inr (vs, c2)" "Q c2" by blast
  then show ?case using c1 by simp
qed

lemma list_all2_uniform_bound:
  "list_all2 (\<lambda>d v. \<exists>N::nat. \<forall>n\<ge>N. R n d v) ds vs \<Longrightarrow> \<exists>N. \<forall>n\<ge>N. list_all2 (R n) ds vs"
proof (induction ds vs rule: list_all2_induct)
  case Nil
  then show ?case by simp
next
  case (Cons d ds v vs)
  then obtain N1 N2 where "\<forall>n\<ge>N1. R n d v" "\<forall>n\<ge>N2. list_all2 (R n) ds vs" by blast
  then have "\<forall>n\<ge>max N1 N2. list_all2 (R n) (d # ds) (v # vs)" by simp
  then show ?case by blast
qed

lemma sound_update: "sound g c \<Longrightarrow> level_of g k w \<Longrightarrow> sound g (c(cache_key g k \<mapsto> w))"
  by (auto simp: sound_def cache_key_def)

lemma get_level_Suc_sound:
  assumes lv: "level_of g f v" and s: "sound g c"
    and body: "c (cache_key g f) = None \<or> c (cache_key g f) = Some 0 \<Longrightarrow>
       \<exists>c'. get_level_body (get_level m) g f c = Inr (v, c') \<and> sound g c'"
  shows "\<exists>c'. get_level (Suc m) g f c = Inr (v, c') \<and> sound g c'"
proof (cases "c (cache_key g f)")
  case None
  with body obtain c' where "get_level_body (get_level m) g f c = Inr (v, c')" "sound g c'"
    by blast
  then show ?thesis using None lv by (simp add: memoize_call_def sound_update)
next
  case (Some w)
  show ?thesis
  proof (cases "w = 0")
    case True
    with body Some obtain c' where
      "get_level_body (get_level m) g f c = Inr (v, c')" "sound g c'" by blast
    then show ?thesis using Some True lv by (simp add: memoize_call_def sound_update)
  next
    case False
    have "level_of g f w" using s Some by (simp add: sound_def)
    then have "w = v" using lv by (rule level_of_det)
    then show ?thesis using Some False s by (simp add: memoize_call_def)
  qed
qed

lemma level_of_computed:
  "level_of g f v \<Longrightarrow>
   \<exists>N. \<forall>n\<ge>N. \<forall>c. sound g c \<longrightarrow> (\<exists>c'. get_level n g f c = Inr (v, c') \<and> sound g c')"
proof (induction rule: level_of.induct)
  case (leaf f)
  have "\<exists>c'. get_level n g f c = Inr (0, c') \<and> sound g c'" if "n \<ge> 1" "sound g c" for n c
  proof -
    from that obtain m where n: "n = Suc m" by (cases n) auto
    have "\<exists>c'. get_level (Suc m) g f c = Inr (0, c') \<and> sound g c'"
      by (rule get_level_Suc_sound [OF level_of.leaf [OF leaf] that(2)])
         (simp add: get_level_body_def leaf that(2))
    then show ?thesis using n by simp
  qed
  then show ?case by blast
next
  case (node f d ds v vs)
  have lv: "level_of g f (1 + fold max vs v)"
    by (rule level_of.node [OF node.hyps(1)]) (rule list_all2_mono [OF node.IH], blast)
  have "list_all2 (\<lambda>d v. \<exists>N. \<forall>n\<ge>N. \<forall>c. sound g c \<longrightarrow>
          (\<exists>c'. get_level n g d c = Inr (v, c') \<and> sound g c')) (d # ds) (v # vs)"
    by (rule list_all2_mono [OF node.IH]) blast
  from list_all2_uniform_bound [OF this]
  obtain N where N: "\<forall>n\<ge>N. list_all2 (\<lambda>d v. \<forall>c. sound g c \<longrightarrow>
          (\<exists>c'. get_level n g d c = Inr (v, c') \<and> sound g c')) (d # ds) (v # vs)" by blast
  have "\<exists>c'. get_level n g f c = Inr (1 + fold max vs v, c') \<and> sound g c'"
    if "n \<ge> Suc N" "sound g c" for n c
  proof -
    from that obtain m where n: "n = Suc m" "m \<ge> N" by (cases n) auto
    from N n(2) have "list_all2 (\<lambda>d v. \<forall>c. sound g c \<longrightarrow>
          (\<exists>c'. get_level m g d c = Inr (v, c') \<and> sound g c')) (d # ds) (v # vs)" by blast
    from map_levels_all2 [OF this that(2)]
    obtain c1 where c1: "map_levels (get_level m g) (d # ds) c = Inr (v # vs, c1)" "sound g c1"
      by blast
    have "\<exists>c'. get_level (Suc m) g f c = Inr (1 + fold max vs v, c') \<and> sound g c'"
      by (rule get_level_Suc_sound [OF lv that(2)])
         (simp add: get_level_body_def node.hyps(1) c1 del: map_levels.simps)
    then show ?thesis using n by simp
  qed
  then show ?case by blast
qed



lemma finite_dep_rel: "finite (dep_rel g)"
proof -
  have "dep_rel g \<subseteq> set (keys g) \<times> (\<Union>ds \<in> snd ` set g. set ds)"
  proof
    fix p assume "p \<in> dep_rel g"
    then obtain f d ds where p: "p = (f, d)" "map_of g f = Some ds" "d \<in> set ds"
      by (auto simp: dep_rel_def)
    then have "(f, ds) \<in> set g" by (simp add: map_of_SomeD)
    then have "f \<in> set (keys g)" "ds \<in> snd ` set g"
      by (auto simp: keys_def intro: rev_image_eqI)
    then show "p \<in> set (keys g) \<times> (\<Union>ds \<in> snd ` set g. set ds)"
      using p by blast
  qed
  moreover have "finite (set (keys g) \<times> (\<Union>ds \<in> snd ` set g. set ds))" by simp
  ultimately show ?thesis by (rule finite_subset)
qed

lemma keys_map_of: "f \<in> set (keys g) \<Longrightarrow> \<exists>ds. map_of g f = Some ds"
  by (cases "map_of g f") (auto simp: keys_def map_of_eq_None_iff)

lemma list_all2_choice: "\<forall>x\<in>set xs. \<exists>y. P x y \<Longrightarrow> \<exists>ys. list_all2 P xs ys"
proof (induction xs)
  case Nil
  then show ?case by simp
next
  case (Cons x xs)
  then obtain y ys where "P x y" "list_all2 P xs ys" by auto
  then have "list_all2 P (x # xs) (y # ys)" by simp
  then show ?case by blast
qed

lemma level_of_total:
  assumes ac: "acyclic (dep_rel g)" and cl: "closed_graph g"
  shows "f \<in> set (keys g) \<Longrightarrow> \<exists>v. level_of g f v"
proof (induction f rule: wf_induct_rule [OF finite_acyclic_wf_converse [OF finite_dep_rel ac]])
  case (1 f)
  from keys_map_of [OF "1.prems"] obtain ds where ds: "map_of g f = Some ds" by blast
  show ?case
  proof (cases ds)
    case Nil
    then show ?thesis using ds level_of.leaf by blast
  next
    case (Cons d ds')
    have "\<forall>x\<in>set ds. \<exists>v. level_of g x v"
    proof
      fix x assume x: "x \<in> set ds"
      then have "(f, x) \<in> dep_rel g" using ds by (auto simp: dep_rel_def)
      moreover have "x \<in> set (keys g)" using cl ds x by (auto simp: closed_graph_def)
      ultimately show "\<exists>v. level_of g x v" using "1.IH" by simp
    qed
    from list_all2_choice [OF this] obtain vs where vs: "list_all2 (level_of g) ds vs" by blast
    with Cons obtain v vs' where "vs = v # vs'" by (cases vs) auto
    with vs Cons ds show ?thesis using level_of.node by blast
  qed
qed

lemma level_of_leaf_iff: "map_of g f = Some [] \<Longrightarrow> level_of g f v \<longleftrightarrow> v = 0"
  by (auto intro: level_of.leaf elim: level_of.cases)

lemma level_of_node_Max:
  assumes f: "map_of g f = Some ds" "ds \<noteq> []" and lv: "level_of g f v"
    and L: "\<forall>d\<in>set ds. level_of g d (L d)"
  shows "v = 1 + Max (L ` set ds)"
  using lv
proof (cases rule: level_of.cases)
  case leaf
  then show ?thesis using f by simp
next
  case (node d ds' w ws)
  then have d: "ds = d # ds'" using f by simp
  have "list_all2 (\<lambda>x y. \<forall>w. level_of g x w \<longrightarrow> y = w) ds (map L ds)"
    unfolding list_all2_conv_all_nth
  proof (intro conjI allI impI)
    show "length ds = length (map L ds)" by simp
  next
    fix i w assume i: "i < length ds" and w: "level_of g (ds ! i) w"
    have "level_of g (ds ! i) (L (ds ! i))" using L i by simp
    then have "L (ds ! i) = w" using w by (rule level_of_det)
    then show "map L ds ! i = w" using i by simp
  qed
  moreover have "list_all2 (level_of g) ds (w # ws)" using node(3) d by simp
  ultimately have "map L ds = w # ws" by (rule list_all2_det)
  then have "set (map L ds) = set (w # ws)" by simp
  then have "L ` set ds = set (w # ws)" by (simp only: set_map)
  then show ?thesis using node(1) by (simp only: Max.set_eq_fold)
qed

lemma at_level_levels_add:
  "at_level (levels_add l f levels) l' f' \<longleftrightarrow> at_level levels l' f' \<or> (l' = l \<and> f' = f)"
  by (cases "map_of levels l")
     (auto simp: at_level_def levels_add_def update_conv' set_add_def)

lemma levels_loop_sound:
  assumes L: "\<forall>f\<in>set ks. \<forall>c. sound g c \<longrightarrow> (\<exists>c'. get_level n g f c = Inr (L f, c') \<and> sound g c')"
    and s: "sound g c"
  shows "\<exists>levels' c'. levels_loop n g ks c levels = Inr (levels', c') \<and> sound g c' \<and>
           (\<forall>l f. at_level levels' l f \<longleftrightarrow> at_level levels l f \<or> (f \<in> set ks \<and> l = L f))"
  using L s
proof (induction ks arbitrary: c levels)
  case Nil
  then show ?case by simp
next
  case (Cons k ks)
  from Cons.prems obtain c1 where c1: "get_level n g k c = Inr (L k, c1)" "sound g c1"
    by (meson list.set_intros(1))
  have "\<forall>f\<in>set ks. \<forall>c. sound g c \<longrightarrow> (\<exists>c'. get_level n g f c = Inr (L f, c') \<and> sound g c')"
    using Cons.prems(1) by simp
  from Cons.IH [OF this c1(2), of "levels_add (L k) k levels"]
  obtain levels' c' where r: "levels_loop n g ks c1 (levels_add (L k) k levels) = Inr (levels', c')"
    "sound g c'"
    "\<forall>l f. at_level levels' l f \<longleftrightarrow> at_level (levels_add (L k) k levels) l f \<or> (f \<in> set ks \<and> l = L f)"
    by blast
  have "\<forall>l f. at_level levels' l f \<longleftrightarrow> at_level levels l f \<or> (f \<in> set (k # ks) \<and> l = L f)"
    using r(3) by (auto simp: at_level_levels_add)
  then show ?case using c1 r(1,2) by simp
qed

lemma sound_empty: "sound g Map.empty"
  by (simp add: sound_def)

lemma at_level_Nil: "\<not> at_level [] l f"
  by (simp add: at_level_def)

lemma set_uniform_bound:
  "\<forall>x\<in>set xs. \<exists>N::nat. \<forall>n\<ge>N. R n x \<Longrightarrow> \<exists>N. \<forall>n\<ge>N. \<forall>x\<in>set xs. R n x"
proof (induction xs)
  case Nil
  then show ?case by simp
next
  case (Cons x xs)
  then obtain N1 N2 where "\<forall>n\<ge>N1. R n x" "\<forall>n\<ge>N2. \<forall>x\<in>set xs. R n x" by auto
  then have "\<forall>n\<ge>max N1 N2. \<forall>y\<in>set (x # xs). R n y" by simp
  then show ?case by blast
qed

lemma dag_levels:
  assumes ac: "acyclic (dep_rel g)" and cl: "closed_graph g"
  shows "\<exists>L N.
     (\<forall>f ds. map_of g f = Some ds \<longrightarrow>
        L f = (if ds = [] then 0 else 1 + Max (L ` set ds)) \<and> (\<forall>d\<in>set ds. L d < L f)) \<and>
     (\<forall>n\<ge>N. \<forall>f\<in>set (keys g). \<exists>c'. get_level n g f Map.empty = Inr (L f, c')) \<and>
     (\<forall>n\<ge>N. \<exists>levels c'. compute_levels n g = Inr (levels, c') \<and>
        (\<forall>l f. at_level levels l f \<longleftrightarrow> f \<in> set (keys g) \<and> l = L f))"
proof -
  have "\<forall>f\<in>set (keys g). \<exists>v. level_of g f v"
    using level_of_total [OF ac cl] by blast
  then have "\<exists>L. \<forall>f\<in>set (keys g). level_of g f (L f)"
    by (rule bchoice)
  then obtain L where L: "\<forall>f\<in>set (keys g). level_of g f (L f)" ..
  have "\<forall>f\<in>set (keys g). \<exists>N. \<forall>n\<ge>N. \<forall>c. sound g c \<longrightarrow>
          (\<exists>c'. get_level n g f c = Inr (L f, c') \<and> sound g c')"
  proof
    fix f assume "f \<in> set (keys g)"
    then have "level_of g f (L f)" using L by simp
    then show "\<exists>N. \<forall>n\<ge>N. \<forall>c. sound g c \<longrightarrow>
          (\<exists>c'. get_level n g f c = Inr (L f, c') \<and> sound g c')"
      by (rule level_of_computed)
  qed
  then have "\<exists>N. \<forall>n\<ge>N. \<forall>f\<in>set (keys g). \<forall>c. sound g c \<longrightarrow>
          (\<exists>c'. get_level n g f c = Inr (L f, c') \<and> sound g c')"
    by (rule set_uniform_bound)
  then obtain N where N: "\<forall>n\<ge>N. \<forall>f\<in>set (keys g). \<forall>c. sound g c \<longrightarrow>
          (\<exists>c'. get_level n g f c = Inr (L f, c') \<and> sound g c')" ..
  have rec: "L f = (if ds = [] then 0 else 1 + Max (L ` set ds)) \<and> (\<forall>d\<in>set ds. L d < L f)"
    if f: "map_of g f = Some ds" for f ds
  proof -
    have "f \<in> set (keys g)" using f by (rule map_of_Some_keys)
    then have lf: "level_of g f (L f)" using L by simp
    have sub: "set ds \<subseteq> set (keys g)" using cl f by (simp add: closed_graph_def)
    show ?thesis
    proof (cases "ds = []")
      case True
      then show ?thesis using lf f by (simp add: level_of_leaf_iff)
    next
      case False
      have "\<forall>d\<in>set ds. level_of g d (L d)" using L sub by blast
      from level_of_node_Max [OF f False lf this]
      have eq: "L f = 1 + Max (L ` set ds)" .
      have "L d < L f" if "d \<in> set ds" for d
      proof -
        have "L d \<le> Max (L ` set ds)" using that by simp
        then show ?thesis using eq by simp
      qed
      then show ?thesis using eq False by simp
    qed
  qed
  have one: "\<exists>c'. get_level n g f Map.empty = Inr (L f, c')"
    if "n \<ge> N" "f \<in> set (keys g)" for n f
  proof -
    from N that have "\<forall>c. sound g c \<longrightarrow>
          (\<exists>c'. get_level n g f c = Inr (L f, c') \<and> sound g c')" by simp
    then have "\<exists>c'. get_level n g f Map.empty = Inr (L f, c') \<and> sound g c'"
      using sound_empty by simp
    then show ?thesis by blast
  qed
  have loop: "\<exists>levels c'. compute_levels n g = Inr (levels, c') \<and>
        (\<forall>l f. at_level levels l f \<longleftrightarrow> f \<in> set (keys g) \<and> l = L f)" if "n \<ge> N" for n
  proof -
    have "\<forall>f\<in>set (keys g). \<forall>c. sound g c \<longrightarrow>
          (\<exists>c'. get_level n g f c = Inr (L f, c') \<and> sound g c')" using N that by simp
    from levels_loop_sound [OF this sound_empty, of "[]"]
    obtain levels' c' where "levels_loop n g (keys g) Map.empty [] = Inr (levels', c')"
      "\<forall>l f. at_level levels' l f \<longleftrightarrow> at_level [] l f \<or> (f \<in> set (keys g) \<and> l = L f)"
      by blast
    then have "compute_levels n g = Inr (levels', c') \<and>
        (\<forall>l f. at_level levels' l f \<longleftrightarrow> f \<in> set (keys g) \<and> l = L f)"
      by (simp add: compute_levels_def at_level_Nil)
    then show ?thesis by blast
  qed
  have A: "\<forall>f ds. map_of g f = Some ds \<longrightarrow>
        L f = (if ds = [] then 0 else 1 + Max (L ` set ds)) \<and> (\<forall>d\<in>set ds. L d < L f)"
    by (intro allI impI) (rule rec)
  have B: "\<forall>n\<ge>N. \<forall>f\<in>set (keys g). \<exists>c'. get_level n g f Map.empty = Inr (L f, c')"
    by (intro allI impI ballI) (rule one)
  have C: "\<forall>n\<ge>N. \<exists>levels c'. compute_levels n g = Inr (levels, c') \<and>
        (\<forall>l f. at_level levels l f \<longleftrightarrow> f \<in> set (keys g) \<and> l = L f)"
    by (intro allI impI) (rule loop)
  from A B C show ?thesis by (intro exI conjI)
qed


section \<open>Levels of a cyclic graph\<close>

lemma on_cycle_path_step:
  assumes "on_cycle_path g f"
  shows "\<exists>ds d. map_of g f = Some ds \<and> d \<in> set ds \<and> on_cycle_path g d"
proof -
  from assms obtain x where x: "(f, x) \<in> (dep_rel g)\<^sup>*" "(x, x) \<in> (dep_rel g)\<^sup>+"
    by (auto simp: on_cycle_path_def)
  have "(f, x) \<in> (dep_rel g)\<^sup>+"
    using x by (metis rtranclD)
  then obtain d where d: "(f, d) \<in> dep_rel g" "(d, x) \<in> (dep_rel g)\<^sup>*"
    by (meson tranclD)
  then have "on_cycle_path g d" using x(2) by (auto simp: on_cycle_path_def)
  then show ?thesis using d(1) by (auto simp: dep_rel_def)
qed

lemma cache_avoids_update:
  "cache_avoids g c \<Longrightarrow> \<not> on_cycle_path g k \<Longrightarrow> cache_avoids g (c(cache_key g k \<mapsto> w))"
  by (auto simp: cache_avoids_def cache_key_def)

lemma map_levels_cyc:
  assumes f: "\<forall>d\<in>set ds. \<forall>c. cache_avoids g c \<longrightarrow> cyc_ok g d (f d c)"
    and c: "cache_avoids g c"
  shows "case map_levels f ds c of Inl e \<Rightarrow> e = RecursionError
         | Inr (vs, c') \<Rightarrow> length vs = length ds \<and> (\<forall>d\<in>set ds. \<not> on_cycle_path g d) \<and> cache_avoids g c'"
  using f c
proof (induction ds arbitrary: c)
  case Nil
  then show ?case by simp
next
  case (Cons d ds)
  have h: "cyc_ok g d (f d c)" using Cons.prems by simp
  show ?case
  proof (cases "f d c")
    case (Inl e)
    then show ?thesis using h by (simp add: cyc_ok_def)
  next
    case (Inr p)
    obtain v c1 where p: "p = (v, c1)" by (cases p)
    with Inr h have c1: "\<not> on_cycle_path g d" "cache_avoids g c1" by (simp_all add: cyc_ok_def)
    have "\<forall>d\<in>set ds. \<forall>c. cache_avoids g c \<longrightarrow> cyc_ok g d (f d c)" using Cons.prems(1) by simp
    from Cons.IH [OF this c1(2)] show ?thesis
      using Inr p c1(1) by (auto split: sum.splits)
  qed
qed

lemma get_level_cyc:
  assumes cl: "closed_graph g"
  shows "f \<in> set (keys g) \<Longrightarrow> cache_avoids g c \<Longrightarrow> cyc_ok g f (get_level n g f c)"
proof (induction n arbitrary: f c)
  case 0
  then show ?case by (simp add: cyc_ok_def)
next
  case (Suc n)
  from keys_map_of [OF Suc.prems(1)] obtain ds where ds: "map_of g f = Some ds" by blast
  have sub: "set ds \<subseteq> set (keys g)" using cl ds by (simp add: closed_graph_def)
  have body: "cyc_ok g f (get_level_body (get_level n) g f c)"
  proof (cases "ds = []")
    case True
    have "\<not> on_cycle_path g f" using on_cycle_path_step [of g f] ds True by auto
    then show ?thesis using ds True Suc.prems(2) by (simp add: get_level_body_def cyc_ok_def)
  next
    case False
    have "\<forall>d\<in>set ds. \<forall>c. cache_avoids g c \<longrightarrow> cyc_ok g d (get_level n g d c)"
      using Suc.IH sub by blast
    from map_levels_cyc [OF this Suc.prems(2)]
    have m: "case map_levels (get_level n g) ds c of Inl e \<Rightarrow> e = RecursionError
         | Inr (vs, c') \<Rightarrow> length vs = length ds \<and> (\<forall>d\<in>set ds. \<not> on_cycle_path g d) \<and> cache_avoids g c'" .
    show ?thesis
    proof (cases "map_levels (get_level n g) ds c")
      case (Inl e)
      then show ?thesis using m ds False by (simp add: get_level_body_def cyc_ok_def)
    next
      case (Inr p)
      obtain vs c1 where p: "p = (vs, c1)" by (cases p)
      with Inr m have r: "length vs = length ds" "\<forall>d\<in>set ds. \<not> on_cycle_path g d" "cache_avoids g c1"
        by simp_all
      have nf: "\<not> on_cycle_path g f" using on_cycle_path_step [of g f] ds r(2) by auto
      obtain v vs' where "vs = v # vs'" using r(1) False by (cases vs) auto
      then show ?thesis using Inr p ds False nf r(3)
        by (simp add: get_level_body_def cyc_ok_def)
    qed
  qed
  show ?case
  proof (cases "c (cache_key g f)")
    case None
    then show ?thesis using body
      by (auto simp: memoize_call_def cyc_ok_def cache_avoids_update split: sum.splits)
  next
    case (Some w)
    show ?thesis
    proof (cases "w = 0")
      case True
      then show ?thesis using body Some
        by (auto simp: memoize_call_def cyc_ok_def cache_avoids_update split: sum.splits)
    next
      case False
      then have "\<not> on_cycle_path g f" using Some Suc.prems(2) by (simp add: cache_avoids_def)
      then show ?thesis using Some False Suc.prems(2) by (simp add: memoize_call_def cyc_ok_def)
    qed
  qed
qed

lemma levels_loop_cyc:
  assumes cl: "closed_graph g"
  shows "set ks \<subseteq> set (keys g) \<Longrightarrow> cache_avoids g c \<Longrightarrow> \<exists>k\<in>set ks. on_cycle_path g k \<Longrightarrow>
         levels_loop n g ks c levels = Inl RecursionError"
proof (induction ks arbitrary: c levels)
  case Nil
  then show ?case by simp
next
  case (Cons k ks)
  have h: "cyc_ok g k (get_level n g k c)"
    using get_level_cyc [OF cl] Cons.prems(1,2) by simp
  show ?case
  proof (cases "get_level n g k c")
    case (Inl e)
    then show ?thesis using h by (simp add: cyc_ok_def)
  next
    case (Inr p)
    obtain v c1 where p: "p = (v, c1)" by (cases p)
    with Inr h have c1: "\<not> on_cycle_path g k" "cache_avoids g c1" by (simp_all add: cyc_ok_def)
    then have "\<exists>k\<in>set ks. on_cycle_path g k" using Cons.prems(3) by auto
    moreover have "set ks \<subseteq> set (keys g)" using Cons.prems(1) by simp
    ultimately have "levels_loop n g ks c1 (levels_add v k levels) = Inl RecursionError"
      using c1(2) Cons.IH by blast
    then show ?thesis using Inr p by simp
  qed
qed

lemma cyclic_levels_recursion_error:
  assumes cyc: "\<not> acyclic (dep_rel g)" and cl: "closed_graph g"
  shows "compute_levels n g = Inl RecursionError"
proof -
  from cyc obtain x where x: "(x, x) \<in> (dep_rel g)\<^sup>+" by (auto simp: acyclic_def)
  then have oc: "on_cycle_path g x" by (auto simp: on_cycle_path_def)
  from on_cycle_path_step [OF this] have "x \<in> set (keys g)"
    by (auto intro: map_of_Some_keys)
  with oc have "\<exists>k\<in>set (keys g). on_cycle_path g k" by blast
  moreover have "cache_avoids g Map.empty" by (simp add: cache_avoids_def)
  ultimately show ?thesis
    unfolding compute_levels_def using levels_loop_cyc [OF cl] by blast
qed



section \<open>The level calculator on the filtered graph\<close>

lemma closed_filter_deps: "closed_graph (filter_deps table)"
  unfolding closed_graph_def
proof (intro allI impI)
  fix f ds assume fd: "map_of (filter_deps table) f = Some ds"
  then have "f \<in> set (keys table)"
    using map_of_Some_keys [OF fd] by (simp add: filter_deps_keys)
  then obtain raw where raw: "map_of table f = Some raw"
    using keys_map_of by blast
  from filter_deps_value [OF raw] fd
  have "set ds = {d \<in> set raw. d \<in> set (keys table)}" by auto
  then show "set ds \<subseteq> set (keys (filter_deps table))"
    by (auto simp: filter_deps_keys)
qed

text \<open>
  Claim C1. Let \<open>g\<close> be the function table after the dependency filter and let its
  dependency graph be acyclic. Then there is a level assignment \<open>L\<close> with
  \<open>L f = 0\<close> when the filtered set of \<open>f\<close> is empty and
  \<open>L f = 1 + max {L d | d in the filtered set of f}\<close> otherwise, hence
  \<open>L d < L f\<close> for every filtered dependency \<open>d\<close> of \<open>f\<close>; and whenever the
  interpreter allows a call depth of at least \<open>N\<close>, \<^verbatim>\<open>get_level(g, f)\<close> returns \<open>L f\<close>
  for every function \<open>f\<close> of \<open>g\<close>, and the module-level loop finishes with every
  function \<open>f\<close> filed under level \<open>L f\<close> and under no other level.
\<close>

theorem get_level_recurrence_on_dag:
  assumes "g = filter_deps table" and "acyclic (dep_rel g)"
  shows "\<exists>L N.
     (\<forall>f ds. map_of g f = Some ds \<longrightarrow>
        L f = (if ds = [] then 0 else 1 + Max (L ` set ds)) \<and> (\<forall>d\<in>set ds. L d < L f)) \<and>
     (\<forall>n\<ge>N. \<forall>f\<in>set (keys g). \<exists>c'. get_level n g f Map.empty = Inr (L f, c')) \<and>
     (\<forall>n\<ge>N. \<exists>levels c'. compute_levels n g = Inr (levels, c') \<and>
        (\<forall>l f. at_level levels l f \<longleftrightarrow> f \<in> set (keys g) \<and> l = L f))"
proof -
  have "closed_graph g" using assms(1) by (simp add: closed_filter_deps)
  with assms(2) show ?thesis by (rule dag_levels)
qed

lemma dep_rel_scenario_A:
  "dep_rel [(''bar'', []), (''foo'', [''bar''])] = {(''foo'', ''bar'')}"
  by (auto simp: dep_rel_def split: if_splits)

lemma filter_deps_scenario_A:
  "filter_deps [(''bar'', []), (''foo'', [''bar'', ''x''])] = [(''bar'', []), (''foo'', [''bar''])]"
  by (simp add: filter_deps_def keys_def set_add_def)

theorem get_level_recurrence_on_dag_witness:
  "[(''bar'', []), (''foo'', [''bar''])] = filter_deps [(''bar'', []), (''foo'', [''bar'', ''x''])] \<and>
   acyclic (dep_rel [(''bar'', []), (''foo'', [''bar''])]) \<and>
   (\<exists>L N.
     (\<forall>f ds. map_of [(''bar'', []), (''foo'', [''bar''])] f = Some ds \<longrightarrow>
        L f = (if ds = [] then 0 else 1 + Max (L ` set ds)) \<and> (\<forall>d\<in>set ds. L d < L f)) \<and>
     (\<forall>n\<ge>N. \<forall>f\<in>set (keys [(''bar'', []), (''foo'', [''bar''])]).
        \<exists>c'. get_level n [(''bar'', []), (''foo'', [''bar''])] f Map.empty = Inr (L f, c')) \<and>
     (\<forall>n\<ge>N. \<exists>levels c'.
        compute_levels n [(''bar'', []), (''foo'', [''bar''])] = Inr (levels, c') \<and>
        (\<forall>l f. at_level levels l f \<longleftrightarrow>
           f \<in> set (keys [(''bar'', []), (''foo'', [''bar''])]) \<and> l = L f)))"
proof -
  have h1: "[(''bar'', []), (''foo'', [''bar''])]
      = filter_deps [(''bar'', []), (''foo'', [''bar'', ''x''])]"
    by (simp add: filter_deps_scenario_A)
  have h2: "acyclic (dep_rel [(''bar'', []), (''foo'', [''bar''])])"
  proof -
    have "acyclic ({} :: (string \<times> string) set)" by (simp add: acyclic_def)
    then show ?thesis by (simp add: dep_rel_scenario_A)
  qed
  show ?thesis
    using h1 h2 get_level_recurrence_on_dag [OF h1 h2] by (intro conjI)
qed

text \<open>Scenario A of the specification, evaluated with a call depth of \<open>2\<close>.\<close>

lemma compute_levels_scenario_A:
  "\<exists>c. compute_levels 2 [(''bar'', []), (''foo'', [''bar''])]
      = Inr ([(0, [''bar'']), (1, [''foo''])], c)"
  by (simp add: compute_levels_def keys_def numeral_2_eq_2 memoize_call_def
      get_level_body_def cache_key_def levels_add_def set_add_def)

text \<open>
  Claim C3, as amended. The code has no cycle detection. When the filtered dependency
  graph has a cycle, the module-level loop never produces a level assignment, whatever
  call depth \<open>n\<close> the interpreter allows: the recursion of \<^verbatim>\<open>get_level\<close> runs until the
  depth is used up and the run ends with the interpreter's \<open>RecursionError\<close>.
\<close>

theorem cyclic_graph_exhausts_recursion:
  assumes "g = filter_deps table" and "\<not> acyclic (dep_rel g)"
  shows "compute_levels n g = Inl RecursionError"
proof -
  have "closed_graph g" using assms(1) by (simp add: closed_filter_deps)
  with assms(2) show ?thesis by (rule cyclic_levels_recursion_error)
qed

lemma filter_deps_self_loop: "filter_deps [(''f'', [''f''])] = [(''f'', [''f''])]"
  by (simp add: filter_deps_def keys_def set_add_def)

lemma cyclic_self_loop: "\<not> acyclic (dep_rel [(''f'', [''f''])])"
proof -
  have "(''f'', ''f'') \<in> dep_rel [(''f'', [''f''])]" by (simp add: dep_rel_def)
  then have "(''f'', ''f'') \<in> (dep_rel [(''f'', [''f''])])\<^sup>+" by (rule r_into_trancl)
  then show ?thesis by (auto simp: acyclic_def)
qed

theorem cyclic_graph_exhausts_recursion_witness:
  "[(''f'', [''f''])] = filter_deps [(''f'', [''f''])] \<and>
   \<not> acyclic (dep_rel [(''f'', [''f''])]) \<and>
   compute_levels 1000 [(''f'', [''f''])] = Inl RecursionError"
proof -
  have h1: "[(''f'', [''f''])] = filter_deps [(''f'', [''f''])]"
    by (simp add: filter_deps_self_loop)
  show ?thesis
    using h1 cyclic_self_loop cyclic_graph_exhausts_recursion [OF h1 cyclic_self_loop, of 1000]
    by (intro conjI)
qed

lemma filter_deps_scenario_B:
  "filter_deps [(''a'', [''b'']), (''b'', [''a''])] = [(''a'', [''b'']), (''b'', [''a''])]"
  by (simp add: filter_deps_def keys_def set_add_def)

lemma cyclic_scenario_B: "\<not> acyclic (dep_rel [(''a'', [''b'']), (''b'', [''a''])])"
proof -
  have "(''a'', ''b'') \<in> dep_rel [(''a'', [''b'']), (''b'', [''a''])]"
    by (simp add: dep_rel_def)
  moreover have "(''b'', ''a'') \<in> dep_rel [(''a'', [''b'']), (''b'', [''a''])]"
    by (simp add: dep_rel_def)
  ultimately have "(''a'', ''a'') \<in> (dep_rel [(''a'', [''b'']), (''b'', [''a''])])\<^sup>+"
    by (rule trancl_into_trancl2 [OF _ r_into_trancl])
  then show ?thesis by (auto simp: acyclic_def)
qed

text \<open>
  Scenario B of the specification (two functions that call each other), with the
  interpreter's default recursion limit: the outcome is the \<open>RecursionError\<close> crash, not
  an error that names the cycle.
\<close>

theorem mutual_recursion_is_recursion_error:
  "compute_levels 1000 (filter_deps [(''a'', [''b'']), (''b'', [''a''])]) = Inl RecursionError"
  using cyclic_levels_recursion_error [OF cyclic_scenario_B, of 1000]
  by (simp add: filter_deps_scenario_B closed_graph_def keys_def)

section \<open>Properties of the matcher\<close>

lemma star_cls_suffix: "x \<in> set (star_cls c s) \<Longrightarrow> \<exists>u. s = u @ x"
proof (induction s)
  case Nil
  then show ?case by simp
next
  case (Cons a s)
  then show ?case by (fastforce split: if_splits)
qed

lemma rmatch_suffix: "(x, c) \<in> set (rmatch r (s, g)) \<Longrightarrow> \<exists>u. s = u @ x"
proof (induction r arbitrary: s g x c)
  case (Lit l)
  then have "x = drop (length l) s" by (auto split: if_splits)
  then have "s = take (length l) s @ x" by simp
  then show ?case ..
next
  case (One k)
  then show ?case by (auto split: list.splits if_splits)
next
  case (Star k)
  then show ?case by (auto dest: star_cls_suffix)
next
  case (Seq r1 r2)
  from Seq.prems obtain y d where yd: "(y, d) \<in> set (rmatch r1 (s, g))"
    "(x, c) \<in> set (rmatch r2 (y, d))" by auto
  from Seq.IH(1) [OF yd(1)] Seq.IH(2) [OF yd(2)] show ?case by auto
next
  case (Alt r1 r2)
  then show ?case by auto
next
  case (Opt r)
  then show ?case by auto
next
  case (Group n r)
  then show ?case by auto
qed

lemma rmatch_length: "(x, c) \<in> set (rmatch r (s, g)) \<Longrightarrow> length x \<le> length s"
  by (drule rmatch_suffix) auto

lemma rmatch_no_groups: "no_groups r \<Longrightarrow> (x, c) \<in> set (rmatch r (s, g)) \<Longrightarrow> c = g"
proof (induction r arbitrary: s g x c)
  case (Seq r1 r2)
  from Seq.prems obtain y d where yd: "(y, d) \<in> set (rmatch r1 (s, g))"
    "(x, c) \<in> set (rmatch r2 (y, d))" by auto
  with Seq show ?case by (metis no_groups.simps(4))
qed (auto split: if_splits list.splits)

lemma star_cls_last:
  "\<exists>ys. star_cls c t = ys @ [t] \<and> (\<forall>y\<in>set ys. length y < length t)"
proof (induction t)
  case Nil
  then show ?case by simp
next
  case (Cons a t)
  then obtain ys where ys: "star_cls c t = ys @ [t]" "\<forall>y\<in>set ys. length y < length t" by blast
  show ?case
  proof (cases "cls_match c a")
    case True
    then have "star_cls c (a # t) = (ys @ [t]) @ [a # t]" using ys by simp
    moreover have "\<forall>y\<in>set (ys @ [t]). length y < length (a # t)" using ys(2) by auto
    ultimately show ?thesis by blast
  next
    case False
    then show ?thesis by simp
  qed
qed

lemma star_cls_trunc:
  "filter (\<lambda>x. length t \<le> length x) (star_cls c (s @ t)) = map (\<lambda>y. y @ t) (star_cls c s)"
proof (induction s)
  case Nil
  obtain ys where ys: "star_cls c t = ys @ [t]" "\<forall>y\<in>set ys. length y < length t"
    using star_cls_last by blast
  then have "filter (\<lambda>x. length t \<le> length x) ys = []" by (auto simp: filter_empty_conv)
  then show ?case using ys(1) by simp
next
  case (Cons a s)
  then show ?case by simp
qed

lemma concat_map_filter_skip:
  "\<forall>x\<in>set xs. \<not> Q x \<longrightarrow> h x = [] \<Longrightarrow> concat (map h xs) = concat (map h (filter Q xs))"
  by (induction xs) auto

lemma rmatch_trunc:
  "filter (\<lambda>(x, c). length t \<le> length x) (rmatch r (s @ t, g))
     = map (\<lambda>(y, c). (y @ t, c)) (rmatch r (s, g))"
proof (induction r arbitrary: s g)
  case (Lit l)
  show ?case
  proof (cases "length l \<le> length s")
    case True
    then show ?thesis by auto
  next
    case False
    then have "take (length l) s \<noteq> l" by (metis length_take min.cobounded1)
    then show ?thesis using False by auto
  qed
next
  case (One k)
  show ?case by (cases s) (auto split: list.splits)
next
  case (Star k)
  have "filter (\<lambda>(x, c). length t \<le> length x) (map (\<lambda>r. (r, g)) (star_cls k (s @ t)))
      = map (\<lambda>r. (r, g)) (filter (\<lambda>x. length t \<le> length x) (star_cls k (s @ t)))"
    by (simp add: filter_map comp_def)
  then show ?case by (simp add: star_cls_trunc comp_def)
next
  case (Seq r1 r2)
  let ?P = "\<lambda>(x, c). length t \<le> length x"
  let ?h = "\<lambda>p. filter ?P (rmatch r2 p)"
  have skip: "\<forall>p\<in>set (rmatch r1 (s @ t, g)). \<not> ?P p \<longrightarrow> ?h p = []"
  proof (intro ballI impI)
    fix p :: "string \<times> caps" assume np: "\<not> ?P p"
    obtain y d where p1: "p = (y, d)" by (cases p)
    with np have p: "p = (y, d)" "length y < length t" by simp_all
    have "\<forall>q\<in>set (rmatch r2 (y, d)). \<not> ?P q"
    proof
      fix q assume q: "q \<in> set (rmatch r2 (y, d))"
      obtain x c where xc: "q = (x, c)" by (cases q)
      with q have "length x \<le> length y" using rmatch_length by blast
      then show "\<not> ?P q" using p(2) xc by simp
    qed
    then show "?h p = []" using p(1) by (simp add: filter_empty_conv)
  qed
  have "filter ?P (rmatch (Seq r1 r2) (s @ t, g)) = concat (map ?h (rmatch r1 (s @ t, g)))"
    by (simp add: filter_concat comp_def)
  also have "\<dots> = concat (map ?h (filter ?P (rmatch r1 (s @ t, g))))"
    by (rule concat_map_filter_skip [OF skip])
  also have "\<dots> = concat (map ?h (map (\<lambda>(y, c). (y @ t, c)) (rmatch r1 (s, g))))"
    by (simp only: Seq.IH(1))
  also have "\<dots> = concat (map (\<lambda>(y, c). map (\<lambda>(y, c). (y @ t, c)) (rmatch r2 (y, c))) (rmatch r1 (s, g)))"
  proof -
    have ih2: "filter (\<lambda>p. length t \<le> length (fst p)) (rmatch r2 (y @ t, c))
        = map (\<lambda>p. (fst p @ t, snd p)) (rmatch r2 (y, c))" for y c
      using Seq.IH(2) [of y c] by (simp add: case_prod_unfold)
    show ?thesis by (simp add: comp_def case_prod_unfold ih2)
  qed
  also have "\<dots> = map (\<lambda>(y, c). (y @ t, c)) (rmatch (Seq r1 r2) (s, g))"
    by (simp add: map_concat comp_def case_prod_unfold)
  finally show ?case .
next
  case (Alt r1 r2)
  then show ?case by simp
next
  case (Opt r)
  then show ?case by simp
next
  case (Group n r)
  let ?P = "\<lambda>(x, c). length t \<le> length x"
  let ?F = "\<lambda>u. \<lambda>(s', g'). (s', AList.update n (take (length u - length s') u) g')"
  have "filter ?P (rmatch (Group n r) (s @ t, g))
      = map (?F (s @ t)) (filter ?P (rmatch r (s @ t, g)))"
    by (simp add: filter_map comp_def case_prod_unfold)
  also have "\<dots> = map (?F (s @ t)) (map (\<lambda>(y, c). (y @ t, c)) (rmatch r (s, g)))"
    by (simp only: Group.IH)
  also have "\<dots> = map (\<lambda>(y, c). (y @ t, c)) (map (?F s) (rmatch r (s, g)))"
  proof -
    have "?F (s @ t) (y @ t, c) = (\<lambda>(y, c). (y @ t, c)) (?F s (y, c))"
      if "(y, c) \<in> set (rmatch r (s, g))" for y c
    proof -
      have "length y \<le> length s" using that by (rule rmatch_length)
      then show ?thesis by simp
    qed
    then show ?thesis by (auto simp: comp_def)
  qed
  finally show ?case by simp
qed


section \<open>Tokens that the lexer classifies as FUNCSTART\<close>

lemma rmatch_Seq_iff:
  "(x, c) \<in> set (rmatch (Seq r1 r2) sg) \<longleftrightarrow> (\<exists>p\<in>set (rmatch r1 sg). (x, c) \<in> set (rmatch r2 p))"
  by auto

lemma finditer_elem:
  "m \<in> set (finditer r pos s) \<Longrightarrow>
   \<exists>s' rest g tl. rmatch r (s', []) = (rest, g) # tl \<and> lastgroup m = last_group g \<and>
      mgroup m = take (length s' - length rest) s'"
proof (induction r pos s rule: finditer.induct)
  case (1 r pos)
  then show ?case by simp
next
  case (2 r pos x xs)
  show ?case
  proof (cases "rmatch r (x # xs, [])")
    case Nil
    then show ?thesis using 2 by simp
  next
    case (Cons p tl)
    obtain rest g where p: "p = (rest, g)" by (cases p)
    let ?n = "length (x # xs) - length rest"
    from "2.prems" Cons p
    have "m = \<lparr>lastgroup = last_group g, mgroup = take ?n (x # xs), mstart = pos, mend = pos + ?n\<rparr>
        \<or> m \<in> set (finditer r (pos + max ?n 1) (drop (?n - 1) xs))"
      by (simp add: Let_def)
    then show ?thesis
    proof
      assume "m = \<lparr>lastgroup = last_group g, mgroup = take ?n (x # xs), mstart = pos, mend = pos + ?n\<rparr>"
      then have "lastgroup m = last_group g" "mgroup m = take ?n (x # xs)" by simp_all
      then show ?thesis using Cons p by blast
    next
      assume "m \<in> set (finditer r (pos + max ?n 1) (drop (?n - 1) xs))"
      then show ?thesis using "2.IH"(2) [OF Cons p [symmetric] refl] by simp
    qed
  qed
qed

lemma identifier_consumes:
  "(x, c) \<in> set (rmatch IDENTIFIER_STR (s, g)) \<Longrightarrow> length x < length s \<and> c = g"
proof -
  assume a: "(x, c) \<in> set (rmatch IDENTIFIER_STR (s, g))"
  then obtain p where p: "p \<in> set (rmatch (One (Pos [Ch CHR ''_'', Range CHR ''a'' CHR ''z'', Range CHR ''A'' CHR ''Z''])) (s, g))"
    "(x, c) \<in> set (rmatch (Star (Pos [Ch CHR ''_'', WordChar])) p)"
    unfolding IDENTIFIER_STR_def rmatch_Seq_iff by blast
  obtain y d where yd: "p = (y, d)" by (cases p)
  from p(1) yd have "length y < length s" "d = g" by (auto split: list.splits if_splits)
  moreover have xy: "(x, c) \<in> set (rmatch (Star (Pos [Ch CHR ''_'', WordChar])) (y, d))"
    using p(2) yd by simp
  then have "length x \<le> length y" by (rule rmatch_length)
  moreover have "c = d" by (rule rmatch_no_groups [OF _ xy]) simp
  ultimately show ?thesis by simp
qed

lemma lit_result: "(x, c) \<in> set (rmatch (Lit l) (s, g)) \<Longrightarrow> s = l @ x \<and> c = g"
  by (auto split: if_splits) (metis append_take_drop_id)

lemma FUNCSTART_re_results:
  assumes "(x, c) \<in> set (rmatch FUNCSTART_re (s, []))"
  shows "\<exists>name. c = [(''funcname'', name)] \<and> name \<noteq> [] \<and>
           CHR ''{'' \<in> set (take (length s - length x) s)"
proof -
  let ?S1 = "Star (Neg [Ch CHR '')'', Ch CHR '';''])"
  let ?S2 = "Star (Neg [Ch CHR ''{'', Ch CHR '';''])"
  have F: "FUNCSTART_re = Seq funcstart_head (Seq (Lit '' '') (Seq (Group ''funcname'' IDENTIFIER_STR)
            (Seq ?S1 (Seq (Lit '')'') (Seq ?S2 (Lit ''{''))))))"
    by (simp add: FUNCSTART_re_def)
  from assms obtain p1 p2 p3 p4 p5 p6 where
    p1: "p1 \<in> set (rmatch funcstart_head (s, []))" and
    p2: "p2 \<in> set (rmatch (Lit '' '') p1)" and
    p3: "p3 \<in> set (rmatch (Group ''funcname'' IDENTIFIER_STR) p2)" and
    p4: "p4 \<in> set (rmatch ?S1 p3)" and
    p5: "p5 \<in> set (rmatch (Lit '')'') p4)" and
    p6: "p6 \<in> set (rmatch ?S2 p5)" and
    px: "(x, c) \<in> set (rmatch (Lit ''{'') p6)"
    unfolding F rmatch_Seq_iff by blast
  obtain s1 c1 where e1: "p1 = (s1, c1)" by (cases p1)
  obtain s2 c2 where e2: "p2 = (s2, c2)" by (cases p2)
  obtain s3 c3 where e3: "p3 = (s3, c3)" by (cases p3)
  obtain s4 c4 where e4: "p4 = (s4, c4)" by (cases p4)
  obtain s5 c5 where e5: "p5 = (s5, c5)" by (cases p5)
  obtain s6 c6 where e6: "p6 = (s6, c6)" by (cases p6)
  have ng: "no_groups funcstart_head" by (simp add: funcstart_head_def)
  have c1: "c1 = []" using rmatch_no_groups [OF ng] p1 e1 by blast
  obtain u1 where u1: "s = u1 @ s1" using rmatch_suffix p1 e1 by blast
  have l2: "s1 = '' '' @ s2" "c2 = []" using lit_result p2 e1 e2 c1 by blast+
  from p3 e2 e3 l2(2) obtain g' where g': "(s3, g') \<in> set (rmatch IDENTIFIER_STR (s2, []))"
    "c3 = AList.update ''funcname'' (take (length s2 - length s3) s2) g'"
    by auto
  from identifier_consumes [OF g'(1)] have len3: "length s3 < length s2" and "g' = []" by simp_all
  then have c3: "c3 = [(''funcname'', take (length s2 - length s3) s2)]" using g'(2) by simp
  have nm: "take (length s2 - length s3) s2 \<noteq> []" using len3 by auto
  obtain u3 where u3: "s2 = u3 @ s3" using rmatch_suffix g'(1) by blast
  have c4: "c4 = c3" using rmatch_no_groups [of ?S1] p4 e3 e4 by auto
  obtain u4 where u4: "s3 = u4 @ s4" using rmatch_suffix p4 e3 e4 by blast
  have l5: "s4 = '')'' @ s5" "c5 = c4" using lit_result p5 e4 e5 by blast+
  have c6: "c6 = c5" using rmatch_no_groups [of ?S2] p6 e5 e6 by auto
  obtain u6 where u6: "s5 = u6 @ s6" using rmatch_suffix p6 e5 e6 by blast
  have lx: "s6 = ''{'' @ x" "c = c6" using lit_result px e6 by blast+
  have "s = (u1 @ '' '' @ u3 @ u4 @ '')'' @ u6 @ ''{'') @ x"
    using u1 l2(1) u3 u4 l5(1) u6 lx(1) by simp
  then have "take (length s - length x) s = u1 @ '' '' @ u3 @ u4 @ '')'' @ u6 @ ''{''"
    by (metis add_diff_cancel_right' append_eq_conv_conj length_append)
  then have "CHR ''{'' \<in> set (take (length s - length x) s)" by simp
  moreover have "c = [(''funcname'', take (length s2 - length s3) s2)]"
    using lx(2) c6 l5(2) c4 c3 by simp
  ultimately show ?thesis using nm by blast
qed


lemma group_plain_last:
  "no_groups r \<Longrightarrow> (x, c) \<in> set (rmatch (Group n r) (s, [])) \<Longrightarrow> last_group c = Some n"
proof -
  assume ng: "no_groups r" and a: "(x, c) \<in> set (rmatch (Group n r) (s, []))"
  then obtain g' where g': "(x, g') \<in> set (rmatch r (s, []))"
    "c = AList.update n (take (length s - length x) s) g'" by auto
  have "g' = []" using rmatch_no_groups [OF ng g'(1)] .
  then show ?thesis using g'(2) by (simp add: last_group_def)
qed

lemma group_funcstart_last:
  assumes "(x, c) \<in> set (rmatch (Group ''FUNCSTART'' FUNCSTART_re) (s, []))"
  shows "last_group c = Some ''FUNCSTART''"
proof -
  from assms obtain g' where g': "(x, g') \<in> set (rmatch FUNCSTART_re (s, []))"
    "c = AList.update ''FUNCSTART'' (take (length s - length x) s) g'" by auto
  from FUNCSTART_re_results [OF g'(1)] obtain name where "g' = [(''funcname'', name)]" by blast
  then show ?thesis using g'(2) by (simp add: last_group_def)
qed

lemma append_head_left:
  "xs @ ys = z # zs \<Longrightarrow> \<forall>y\<in>set ys. \<not> P y \<Longrightarrow> P z \<Longrightarrow> \<exists>t. xs = z # t"
  by (cases xs) auto

lemma append_head_right:
  "xs @ ys = z # zs \<Longrightarrow> \<forall>x\<in>set xs. \<not> P x \<Longrightarrow> P z \<Longrightarrow> xs = [] \<and> ys = z # zs"
  by (cases xs) auto

lemma TOKEN_REGEX_alts:
  "rmatch TOKEN_REGEX sg =
     rmatch (Group ''IGNORE'' IGNORE_re) sg @
     (rmatch (Group ''FUNCSTART'' FUNCSTART_re) sg @
      (rmatch (Group ''IDENTIFIER'' IDENTIFIER_STR) sg @
       rmatch (Group ''OPEN_PAREN'' (Lit ''{'')) sg @
       rmatch (Group ''CLOSE_PAREN'' (Lit ''}'')) sg @
       rmatch (Group ''NEWLINE'' (Lit [CHR 0x0A])) sg))"
  by (simp add: TOKEN_REGEX_def token_spec_def)

lemma TOKEN_REGEX_funcstart_first:
  assumes m: "rmatch TOKEN_REGEX (s, []) = (rest, g) # rs"
    and k: "last_group g = Some ''FUNCSTART''"
  shows "\<exists>g0 rs0. rmatch FUNCSTART_re (s, []) = (rest, g0) # rs0"
proof -
  let ?P = "\<lambda>p :: string \<times> caps. last_group (snd p) = Some ''FUNCSTART''"
  let ?A1 = "rmatch (Group ''IGNORE'' IGNORE_re) (s, [])"
  let ?A2 = "rmatch (Group ''FUNCSTART'' FUNCSTART_re) (s, [])"
  let ?A3 = "rmatch (Group ''IDENTIFIER'' IDENTIFIER_STR) (s, []) @
       rmatch (Group ''OPEN_PAREN'' (Lit ''{'')) (s, []) @
       rmatch (Group ''CLOSE_PAREN'' (Lit ''}'')) (s, []) @
       rmatch (Group ''NEWLINE'' (Lit [CHR 0x0A])) (s, [])"
  have e: "?A1 @ (?A2 @ ?A3) = (rest, g) # rs" using m by (simp only: TOKEN_REGEX_alts)
  have Pz: "?P (rest, g)" using k by simp
  have n1: "\<forall>p\<in>set ?A1. \<not> ?P p"
  proof
    fix p assume p: "p \<in> set ?A1"
    obtain x c where "p = (x, c)" by (cases p)
    with p have "last_group c = Some ''IGNORE''"
      using group_plain_last [of IGNORE_re x c "''IGNORE''" s] by (simp add: IGNORE_re_def)
    then show "\<not> ?P p" using \<open>p = (x, c)\<close> by simp
  qed
  have n3: "\<forall>p\<in>set ?A3. \<not> ?P p"
  proof
    fix p assume p: "p \<in> set ?A3"
    obtain x c where xc: "p = (x, c)" by (cases p)
    from p xc consider
        "(x, c) \<in> set (rmatch (Group ''IDENTIFIER'' IDENTIFIER_STR) (s, []))"
      | "(x, c) \<in> set (rmatch (Group ''OPEN_PAREN'' (Lit ''{'')) (s, []))"
      | "(x, c) \<in> set (rmatch (Group ''CLOSE_PAREN'' (Lit ''}'')) (s, []))"
      | "(x, c) \<in> set (rmatch (Group ''NEWLINE'' (Lit [CHR 0x0A])) (s, []))"
      by (auto simp del: rmatch.simps)
    then have "last_group c \<noteq> Some ''FUNCSTART''"
    proof cases
      case 1
      have "no_groups IDENTIFIER_STR" by (simp add: IDENTIFIER_STR_def)
      from group_plain_last [OF this 1] show ?thesis by simp
    next
      case 2
      from group_plain_last [OF _ 2] show ?thesis by simp
    next
      case 3
      from group_plain_last [OF _ 3] show ?thesis by simp
    next
      case 4
      from group_plain_last [OF _ 4] show ?thesis by simp
    qed
    then show "\<not> ?P p" using xc by simp
  qed
  from append_head_right [of ?A1 "?A2 @ ?A3" "(rest, g)" rs ?P, OF e n1 Pz]
  have "?A2 @ ?A3 = (rest, g) # rs" by simp
  from append_head_left [of ?A2 ?A3 "(rest, g)" rs ?P, OF this n3 Pz]
  obtain t where "?A2 = (rest, g) # t" by blast
  then show ?thesis by (auto simp: map_eq_Cons_conv)
qed

lemma lexer_funcstart_rematch:
  assumes m: "m \<in> set (finditer TOKEN_REGEX pos data)"
    and k: "lastgroup m = Some ''FUNCSTART''"
  shows "\<exists>name rs. rmatch FUNCSTART_re (mgroup m, []) = ([], [(''funcname'', name)]) # rs \<and>
           name \<noteq> [] \<and> CHR ''{'' \<in> set (mgroup m)"
proof -
  from finditer_elem [OF m] obtain s' rest g rs where
    r: "rmatch TOKEN_REGEX (s', []) = (rest, g) # rs" and
    lg: "lastgroup m = last_group g" and
    v: "mgroup m = take (length s' - length rest) s'" by blast
  from TOKEN_REGEX_funcstart_first [OF r] lg k obtain g0 rs0 where
    f: "rmatch FUNCSTART_re (s', []) = (rest, g0) # rs0" by auto
  then have mem: "(rest, g0) \<in> set (rmatch FUNCSTART_re (s', []))" by simp
  from FUNCSTART_re_results [OF mem] obtain name where
    n: "g0 = [(''funcname'', name)]" "name \<noteq> []"
    "CHR ''{'' \<in> set (take (length s' - length rest) s')" by blast
  from rmatch_suffix [OF mem] obtain u where u: "s' = u @ rest" by blast
  then have vu: "mgroup m = u" using v by simp
  have "filter (\<lambda>(x, c). length rest \<le> length x) (rmatch FUNCSTART_re (u @ rest, []))
      = map (\<lambda>(y, c). (y @ rest, c)) (rmatch FUNCSTART_re (u, []))"
    by (rule rmatch_trunc)
  then have "map (\<lambda>(y, c). (y @ rest, c)) (rmatch FUNCSTART_re (u, []))
      = (rest, g0) # filter (\<lambda>(x, c). length rest \<le> length x) rs0"
    using f u by simp
  then obtain y c t where yc: "rmatch FUNCSTART_re (u, []) = (y, c) # t" "y @ rest = rest" "c = g0"
    by (auto simp: map_eq_Cons_conv)
  then have "y = []" by simp
  moreover have "CHR ''{'' \<in> set (mgroup m)" using n(3) v by simp
  ultimately show ?thesis using yc n(1,2) vu by auto
qed

lemma lexer_funcname:
  assumes "m \<in> set (finditer TOKEN_REGEX pos data)" "lastgroup m = Some ''FUNCSTART''"
  shows "\<exists>name. re_match_funcname (mgroup m) = Some name \<and> name \<noteq> []"
  using lexer_funcstart_rematch [OF assms] by (auto simp: re_match_funcname_def)


text \<open>
  Claim C10. Take any token that the lexer classifies as \<open>FUNCSTART\<close> in any text.
  Matching the \<open>FUNCSTART\<close> pattern again on the text of the token alone succeeds and
  captures a non-empty \<open>funcname\<close>, and the text of the token contains an opening
  brace. So \<^verbatim>\<open>FuncStartState.do\<close> on such a token raises nothing and always sets the
  brace depth to \<open>1\<close>: neither the failure of the name extraction nor the depth \<open>0\<close>
  can occur.
\<close>

theorem funcstart_token_always_rematches:
  assumes "m \<in> set (finditer TOKEN_REGEX 0 data)" and "lastgroup m = Some ''FUNCSTART''"
    and "token c = Some tok" and "tvalue tok = mgroup m"
  shows "\<exists>name. re_match_funcname (mgroup m) = Some name \<and> name \<noteq> [] \<and>
           CHR ''{'' \<in> set (mgroup m) \<and>
           do_state fs FuncStartState c
             = Inr (Some ReadFunc, c\<lparr>curr_func_name := name, curr_func_ids := [], paren_level := 1\<rparr>)"
proof -
  from lexer_funcstart_rematch [OF assms(1,2)] obtain name rs where
    r: "rmatch FUNCSTART_re (mgroup m, []) = ([], [(''funcname'', name)]) # rs"
    "name \<noteq> []" "CHR ''{'' \<in> set (mgroup m)" by blast
  then have "re_match_funcname (mgroup m) = Some name" by (simp add: re_match_funcname_def)
  then show ?thesis using r(2,3) assms(3,4) by simp
qed

lemma lex_single_function:
  "finditer TOKEN_REGEX 0 ''function f(){}'' =
     [\<lparr>lastgroup = Some ''FUNCSTART'', mgroup = ''function f(){'', mstart = 0, mend = 13\<rparr>,
      \<lparr>lastgroup = Some ''CLOSE_PAREN'', mgroup = ''}'', mstart = 13, mend = 14\<rparr>]"
  by code_simp

theorem funcstart_token_always_rematches_witness:
  "\<lparr>lastgroup = Some ''FUNCSTART'', mgroup = ''function f(){'', mstart = 0, mend = 13\<rparr>
     \<in> set (finditer TOKEN_REGEX 0 ''function f(){}'') \<and>
   (\<exists>name. re_match_funcname ''function f(){'' = Some name \<and> name \<noteq> [] \<and>
      CHR ''{'' \<in> set ''function f(){'' \<and>
      do_state (\<lambda>p. Some ''function f(){}'') FuncStartState
        ((FileContext ''a.ts'')\<lparr>token :=
           Some \<lparr>kind = Some ''FUNCSTART'', tvalue = ''function f(){'', line = 1, column = 0\<rparr>\<rparr>)
        = Inr (Some ReadFunc,
            (FileContext ''a.ts'')\<lparr>token :=
               Some \<lparr>kind = Some ''FUNCSTART'', tvalue = ''function f(){'', line = 1, column = 0\<rparr>,
               curr_func_name := name, curr_func_ids := [], paren_level := 1\<rparr>))"
proof -
  let ?m = "\<lparr>lastgroup = Some ''FUNCSTART'', mgroup = ''function f(){'', mstart = 0, mend = 13\<rparr>"
  let ?tok = "\<lparr>kind = Some ''FUNCSTART'', tvalue = ''function f(){'', line = 1, column = 0\<rparr>"
  have h1: "?m \<in> set (finditer TOKEN_REGEX 0 ''function f(){}'')"
    unfolding lex_single_function by simp
  have h2: "lastgroup ?m = Some ''FUNCSTART''" by simp
  have h3: "token ((FileContext ''a.ts'')\<lparr>token := Some ?tok\<rparr>) = Some ?tok" by simp
  have h4: "tvalue ?tok = mgroup ?m" by simp
  show ?thesis
    using h1 funcstart_token_always_rematches [OF h1 h2 h3 h4, of "\<lambda>p. Some ''function f(){}''"]
    by (simp del: finditer.simps)
qed

section \<open>Single-line comments\<close>

lemma lex_comment:
  "finditer TOKEN_REGEX 0 ''function f(){\<newline>// foo\<newline>}'' =
     [\<lparr>lastgroup = Some ''FUNCSTART'', mgroup = ''function f(){'', mstart = 0, mend = 13\<rparr>,
      \<lparr>lastgroup = Some ''NEWLINE'', mgroup = ''\<newline>'', mstart = 13, mend = 14\<rparr>,
      \<lparr>lastgroup = Some ''IDENTIFIER'', mgroup = ''foo'', mstart = 17, mend = 20\<rparr>,
      \<lparr>lastgroup = Some ''NEWLINE'', mgroup = ''\<newline>'', mstart = 20, mend = 21\<rparr>,
      \<lparr>lastgroup = Some ''CLOSE_PAREN'', mgroup = ''}'', mstart = 21, mend = 22\<rparr>]"
  by code_simp

text \<open>
  Claim C7 (the code departs from it). The pattern of \<open>IGNORE\<close> is two slashes, one
  character and the letter \<open>r\<close>, so an ordinary single-line comment is not an \<open>IGNORE\<close>
  token. In the file below the comment \<^verbatim>\<open>// foo\<close> inside the body of \<open>f\<close> yields the
  identifier token \<open>foo\<close>, and the scan records \<open>foo\<close> in the identifier set of \<open>f\<close>.
\<close>

theorem comment_identifier_is_recorded:
  "map_sum fst funcs
     (FileContext_run (\<lambda>p. Some ''function f(){\<newline>// foo\<newline>}'') (FileContext ''a.ts''))
     = Inr [(''f'', [''foo''])] \<and>
   Some ''IGNORE''
     \<notin> lastgroup ` set (finditer TOKEN_REGEX 0 ''function f(){\<newline>// foo\<newline>}'')"
  by code_simp


section \<open>Reading tokens inside a body and at top level\<close>


lemma reaches_one: "do_state fs st c = Inr (Some st', c') \<Longrightarrow> reaches fs (st, c) (st', c')"
  by (auto intro: reaches.intros)


lemma idents_Cons:
  "idents (m # ms) = (if lastgroup m = Some ''IDENTIFIER'' then insert (mgroup m) (idents ms) else idents ms)"
  by (auto simp: idents_def)

lemma idents_Nil [simp]: "idents [] = {}"
  by (simp add: idents_def)

lemma read_body:
  assumes "tok_itr c = ms @ rest" and "in_body (paren_level c) ms"
    and "\<forall>m\<in>set ms. lastgroup m = Some ''FUNCSTART'' \<longrightarrow> re_match_funcname (mgroup m) \<noteq> None"
  shows "\<exists>c'. reaches fs (ReadFunc, c) (ReadFunc, c') \<and> tok_itr c' = rest \<and>
           funcs c' = funcs c \<and> curr_func_name c' = curr_func_name c \<and> path c' = path c \<and>
           set (curr_func_ids c') = set (curr_func_ids c) \<union> idents ms \<and>
           paren_level c' = body_depth (paren_level c) ms \<and>
           stdout c' = stdout c @ notices (path c) ms"
  using assms
proof (induction ms arbitrary: c)
  case Nil
  then show ?case by (auto intro: reaches.here)
next
  case (Cons m ms)
  have t: "tok_itr c = m # (ms @ rest)" using Cons.prems(1) by simp
  have "\<exists>c1. do_state fs ReadFunc c = Inr (Some ReadFunc, c1) \<and> tok_itr c1 = ms @ rest \<and>
          funcs c1 = funcs c \<and> curr_func_name c1 = curr_func_name c \<and> path c1 = path c \<and>
          set (curr_func_ids c1) = set (curr_func_ids c) \<union> idents [m] \<and>
          paren_level c1 = body_depth (paren_level c) [m] \<and>
          stdout c1 = stdout c @ notices (path c) [m] \<and>
          in_body (paren_level c1) ms"
  proof (cases "lastgroup m = Some ''FUNCSTART''")
    case True
    then obtain name where "re_match_funcname (mgroup m) = Some name"
      using Cons.prems(3) by auto
    then show ?thesis using True t Cons.prems(2)
      by (simp add: get_next_token_def Let_def idents_Cons)
  next
    case False
    then show ?thesis using t Cons.prems(2)
      by (auto simp: get_next_token_def Let_def idents_Cons)
  qed
  then obtain c1 where c1: "do_state fs ReadFunc c = Inr (Some ReadFunc, c1)"
    "tok_itr c1 = ms @ rest" "funcs c1 = funcs c" "curr_func_name c1 = curr_func_name c"
    "path c1 = path c" "set (curr_func_ids c1) = set (curr_func_ids c) \<union> idents [m]"
    "paren_level c1 = body_depth (paren_level c) [m]"
    "stdout c1 = stdout c @ notices (path c) [m]" "in_body (paren_level c1) ms"
    by blast
  have "\<forall>m\<in>set ms. lastgroup m = Some ''FUNCSTART'' \<longrightarrow> re_match_funcname (mgroup m) \<noteq> None"
    using Cons.prems(3) by simp
  from Cons.IH [OF c1(2) c1(9) this]
  obtain c' where c': "reaches fs (ReadFunc, c1) (ReadFunc, c')" "tok_itr c' = rest"
    "funcs c' = funcs c1" "curr_func_name c' = curr_func_name c1" "path c' = path c1"
    "set (curr_func_ids c') = set (curr_func_ids c1) \<union> idents ms"
    "paren_level c' = body_depth (paren_level c1) ms"
    "stdout c' = stdout c1 @ notices (path c1) ms"
    by blast
  have r: "reaches fs (ReadFunc, c) (ReadFunc, c')"
    using reaches.step [OF c1(1) c'(1)] .
  have i: "set (curr_func_ids c') = set (curr_func_ids c) \<union> idents (m # ms)"
    using c'(6) c1(6) by (auto simp: idents_Cons split: if_splits)
  have d: "paren_level c' = body_depth (paren_level c) (m # ms)"
    using c'(7) c1(7) by simp
  have n: "stdout c' = stdout c @ notices (path c) (m # ms)"
    using c'(8) c1(8) c1(5) by (simp split: option.splits)
  show ?case using r c'(2) c'(3) c1(3) c'(4) c1(4) c'(5) c1(5) i d n by auto
qed



section \<open>Nested declarations\<close>

lemma lexed_funcnames:
  "set ms \<subseteq> set (finditer TOKEN_REGEX 0 data) \<Longrightarrow>
   \<forall>m\<in>set ms. lastgroup m = Some ''FUNCSTART'' \<longrightarrow> re_match_funcname (mgroup m) \<noteq> None"
  using lexer_funcname by fastforce

lemma nested_head_step:
  assumes "tok_itr c = m # toks" and "lastgroup m = Some ''FUNCSTART''"
    and "re_match_funcname (mgroup m) = Some name"
  shows "\<exists>c1. do_state fs ReadFunc c = Inr (Some ReadFunc, c1) \<and>
           stdout c1 = stdout c @ [nested_notice name (path c)] \<and> funcs c1 = funcs c \<and>
           curr_func_name c1 = curr_func_name c \<and> curr_func_ids c1 = curr_func_ids c \<and>
           paren_level c1 = paren_level c \<and> path c1 = path c \<and> tok_itr c1 = toks"
  using assms by (simp add: get_next_token_def Let_def)

text \<open>
  Claim C4, as amended. Let a \<open>FUNCSTART\<close> token \<open>m\<close> of the lexer be read while the
  state machine is in the body of a function. Then a notice naming the nested function
  and the file is printed; the step creates no table entry and leaves the current
  function, its identifier set and the brace depth as they are; and the texts of all
  identifier tokens \<open>ms\<close> that follow, as long as no closing brace has brought the depth
  to \<open>0\<close>, are added to the identifier set of the enclosing function, while the table
  still has no new entry.
\<close>

theorem nested_head_attributes_identifiers_while_open:
  assumes "tok_itr c = m # ms @ rest" and "lastgroup m = Some ''FUNCSTART''"
    and "in_body (paren_level c) ms"
    and "set (m # ms) \<subseteq> set (finditer TOKEN_REGEX 0 data)"
  shows "\<exists>name c1 c2.
           re_match_funcname (mgroup m) = Some name \<and>
           do_state fs ReadFunc c = Inr (Some ReadFunc, c1) \<and>
           stdout c1 = stdout c @ [nested_notice name (path c)] \<and>
           funcs c1 = funcs c \<and> curr_func_name c1 = curr_func_name c \<and>
           curr_func_ids c1 = curr_func_ids c \<and> paren_level c1 = paren_level c \<and>
           reaches fs (ReadFunc, c1) (ReadFunc, c2) \<and> tok_itr c2 = rest \<and>
           funcs c2 = funcs c \<and> curr_func_name c2 = curr_func_name c \<and>
           set (curr_func_ids c2) = set (curr_func_ids c) \<union> idents ms"
proof -
  have "m \<in> set (finditer TOKEN_REGEX 0 data)" using assms(4) by simp
  from lexer_funcname [OF this assms(2)] obtain name where
    name: "re_match_funcname (mgroup m) = Some name" by blast
  from nested_head_step [OF assms(1,2) name, of fs] obtain c1 where
    c1: "do_state fs ReadFunc c = Inr (Some ReadFunc, c1)"
    "stdout c1 = stdout c @ [nested_notice name (path c)]" "funcs c1 = funcs c"
    "curr_func_name c1 = curr_func_name c" "curr_func_ids c1 = curr_func_ids c"
    "paren_level c1 = paren_level c" "path c1 = path c" "tok_itr c1 = ms @ rest"
    by blast
  have ib: "in_body (paren_level c1) ms" using assms(3) c1(6) by simp
  have fn: "\<forall>m\<in>set ms. lastgroup m = Some ''FUNCSTART'' \<longrightarrow> re_match_funcname (mgroup m) \<noteq> None"
    by (rule lexed_funcnames [of ms data]) (use assms(4) in simp)
  from read_body [OF c1(8) ib fn, of fs] obtain c2 where
    c2: "reaches fs (ReadFunc, c1) (ReadFunc, c2)" "tok_itr c2 = rest" "funcs c2 = funcs c1"
    "curr_func_name c2 = curr_func_name c1"
    "set (curr_func_ids c2) = set (curr_func_ids c1) \<union> idents ms"
    by blast
  show ?thesis
    using name c1(1-6) c2(1,2) c2(3) c2(4) c2(5) by (intro exI [of _ name] exI [of _ c1] exI [of _ c2]) simp
qed


lemma lex_scenario_C: "finditer TOKEN_REGEX 0 scenario_C = scenario_C_tokens"
  by code_simp

lemma lex_nested_then_more: "finditer TOKEN_REGEX 0 nested_then_more = nested_then_more_tokens"
  by code_simp

lemma reach_in_outer:
  assumes "fs ''a.ts'' = Some data" and "finditer TOKEN_REGEX 0 data = h # toks"
    and "h = mk_match ''FUNCSTART'' ''function outer(){'' 0 17"
  shows "reaches fs (Start, FileContext ''a.ts'') (ReadFunc, in_outer toks)"
proof -
  let ?c0 = "FileContext ''a.ts''"
  let ?c1 = "?c0\<lparr>tok_itr := h # toks\<rparr>"
  let ?tok = "\<lparr>kind = Some ''FUNCSTART'', tvalue = ''function outer(){'', line = 1, column = 0\<rparr>"
  let ?c2 = "?c0\<lparr>tok_itr := toks, token := Some ?tok\<rparr>"
  have s1: "do_state fs Start ?c0 = Inr (Some ReadData, ?c0)" by simp
  have s2: "do_state fs ReadData ?c0 = Inr (Some GetNextToken, ?c1)"
    using assms(1,2) by (simp add: FileContext_def)
  have s3: "do_state fs GetNextToken ?c1 = Inr (Some FuncStartState, ?c2)"
    using assms(3) by (simp add: get_next_token_def FileContext_def mk_match_def)
  have rm: "re_match_funcname ''function outer(){'' = Some ''outer''"
    by code_simp
  have s4: "do_state fs FuncStartState ?c2 = Inr (Some ReadFunc, in_outer toks)"
    using rm by (simp add: FileContext_def in_outer_def)
  show ?thesis
    by (rule reaches.step [OF s1], rule reaches.step [OF s2], rule reaches.step [OF s3],
        rule reaches_one [OF s4])
qed

theorem nested_head_attributes_identifiers_while_open_witness:
  "tok_itr (in_outer (tl scenario_C_tokens))
     = mk_match ''FUNCSTART'' ''function inner(){'' 18 35
       # [mk_match ''IDENTIFIER'' ''helper'' 36 42]
       @ [mk_match ''CLOSE_PAREN'' ''}'' 46 47, mk_match ''CLOSE_PAREN'' ''}'' 48 49] \<and>
   lastgroup (mk_match ''FUNCSTART'' ''function inner(){'' 18 35) = Some ''FUNCSTART'' \<and>
   in_body (paren_level (in_outer (tl scenario_C_tokens)))
     [mk_match ''IDENTIFIER'' ''helper'' 36 42] \<and>
   set (mk_match ''FUNCSTART'' ''function inner(){'' 18 35
        # [mk_match ''IDENTIFIER'' ''helper'' 36 42])
     \<subseteq> set (finditer TOKEN_REGEX 0 scenario_C) \<and>
   (\<exists>name c1 c2.
      re_match_funcname (mgroup (mk_match ''FUNCSTART'' ''function inner(){'' 18 35)) = Some name \<and>
      do_state (\<lambda>p. Some scenario_C) ReadFunc (in_outer (tl scenario_C_tokens))
        = Inr (Some ReadFunc, c1) \<and>
      stdout c1 = stdout (in_outer (tl scenario_C_tokens))
                  @ [nested_notice name (path (in_outer (tl scenario_C_tokens)))] \<and>
      funcs c1 = funcs (in_outer (tl scenario_C_tokens)) \<and>
      curr_func_name c1 = curr_func_name (in_outer (tl scenario_C_tokens)) \<and>
      curr_func_ids c1 = curr_func_ids (in_outer (tl scenario_C_tokens)) \<and>
      paren_level c1 = paren_level (in_outer (tl scenario_C_tokens)) \<and>
      reaches (\<lambda>p. Some scenario_C) (ReadFunc, c1) (ReadFunc, c2) \<and>
      tok_itr c2 = [mk_match ''CLOSE_PAREN'' ''}'' 46 47, mk_match ''CLOSE_PAREN'' ''}'' 48 49] \<and>
      funcs c2 = funcs (in_outer (tl scenario_C_tokens)) \<and>
      curr_func_name c2 = curr_func_name (in_outer (tl scenario_C_tokens)) \<and>
      set (curr_func_ids c2)
        = set (curr_func_ids (in_outer (tl scenario_C_tokens)))
          \<union> idents [mk_match ''IDENTIFIER'' ''helper'' 36 42])"
proof -
  let ?c = "in_outer (tl scenario_C_tokens)"
  let ?m = "mk_match ''FUNCSTART'' ''function inner(){'' 18 35"
  let ?ms = "[mk_match ''IDENTIFIER'' ''helper'' 36 42]"
  let ?rest = "[mk_match ''CLOSE_PAREN'' ''}'' 46 47, mk_match ''CLOSE_PAREN'' ''}'' 48 49]"
  have h1: "tok_itr ?c = ?m # ?ms @ ?rest"
    by (simp add: in_outer_def scenario_C_tokens_def)
  have h2: "lastgroup ?m = Some ''FUNCSTART''" by (simp add: mk_match_def)
  have h3: "in_body (paren_level ?c) ?ms" by (simp add: in_outer_def mk_match_def)
  have h4: "set (?m # ?ms) \<subseteq> set (finditer TOKEN_REGEX 0 scenario_C)"
    unfolding lex_scenario_C by (simp add: scenario_C_tokens_def)
  show ?thesis
    using h1 h2 h3 h4
      nested_head_attributes_identifiers_while_open [OF h1 h2 h3 h4, of "\<lambda>p. Some scenario_C"]
    by (intro conjI)
qed

text \<open>
  Claim C4 as stated fails. In \<open>nested_twice\<close> the identifier \<open>y\<close> is inside the body
  of the nested function \<open>inner\<close>, but the closing brace of \<open>deep\<close> has already
  committed \<open>outer\<close>: the identifier set of \<open>outer\<close> is \<open>{x}\<close>.
\<close>

theorem nested_body_identifier_lost:
  "map_sum fst funcs (FileContext_run (\<lambda>p. Some nested_twice) (FileContext ''a.ts''))
     = Inr [(''outer'', [''x''])] \<and>
   map (\<lambda>m. (lastgroup m, mgroup m)) (finditer TOKEN_REGEX 0 nested_twice)
     = [(Some ''FUNCSTART'', ''function outer(){''),
        (Some ''FUNCSTART'', ''function inner(){''),
        (Some ''FUNCSTART'', ''function deep(){''),
        (Some ''IDENTIFIER'', ''x''),
        (Some ''CLOSE_PAREN'', ''}''),
        (Some ''IDENTIFIER'', ''y''),
        (Some ''CLOSE_PAREN'', ''}''),
        (Some ''CLOSE_PAREN'', ''}'')]"
  by code_simp


lemma in_outer_reached_scenario_C:
  "reaches (\<lambda>p. Some scenario_C) (Start, FileContext ''a.ts'')
     (ReadFunc, in_outer (tl scenario_C_tokens))"
  by (rule reach_in_outer [where data = scenario_C and h = "hd scenario_C_tokens"])
     (simp_all add: lex_scenario_C scenario_C_tokens_def)

lemma in_outer_reached_nested_then_more:
  "reaches (\<lambda>p. Some nested_then_more) (Start, FileContext ''a.ts'')
     (ReadFunc, in_outer (tl nested_then_more_tokens))"
  by (rule reach_in_outer [where data = nested_then_more and h = "hd nested_then_more_tokens"])
     (simp_all add: lex_nested_then_more nested_then_more_tokens_def)


section \<open>A file that ends inside a function body\<close>










lemma unbalanced_error_line:
  "map_sum (\<lambda>(e, err, c). (e, err, funcs c)) funcs
     (FileContext_run (\<lambda>p. Some unbalanced) (FileContext ''a.ts''))
     = Inl (StopIteration,
            [''Error found after a.ts:3:1: '' @ [CHR 0x27] @ ''b'' @ [CHR 0x27]], [])"
  by code_simp

section \<open>Aggregation of the files\<close>

lemma dict_ior_Cons: "dict_ior d ((k, v) # e) = dict_ior (AList.update k v d) e"
  by (simp add: dict_ior_def)

lemma map_of_dict_ior: "map_of (dict_ior d e) = map_of d ++ map_of (rev e)"
proof (induction e arbitrary: d)
  case Nil
  then show ?case by (simp add: dict_ior_def)
next
  case (Cons a e)
  obtain k v where a: "a = (k, v)" by (cases a)
  have "map_of (dict_ior d (a # e)) = map_of (AList.update k v d) ++ map_of (rev e)"
    using Cons.IH [of "AList.update k v d"] a by (simp add: dict_ior_Cons)
  also have "\<dots> = (map_of d)(k \<mapsto> v) ++ map_of (rev e)" by (simp add: update_conv')
  also have "\<dots> = map_of d ++ ([k \<mapsto> v] ++ map_of (rev e))"
    by (metis map_add_assoc map_add_empty map_add_upd)
  also have "\<dots> = map_of d ++ map_of (rev (a # e))" using a by simp
  finally show ?case .
qed

lemma map_of_rev_distinct: "distinct (map fst e) \<Longrightarrow> map_of (rev e) = map_of e"
  by (rule map_of_inject_set [THEN iffD2]) (simp_all add: rev_map [symmetric])

lemma distinct_dict_ior: "distinct (map fst d) \<Longrightarrow> distinct (map fst (dict_ior d e))"
proof (induction e arbitrary: d)
  case Nil
  then show ?case by (simp add: dict_ior_def)
next
  case (Cons a e)
  obtain k v where a: "a = (k, v)" by (cases a)
  have "distinct (map fst (AList.update k v d))" using Cons.prems by (rule distinct_update)
  then show ?case using Cons.IH a by (simp add: dict_ior_Cons)
qed

lemma do_state_distinct:
  assumes "do_state fs st c = Inr (x, c')" and "distinct (map fst (funcs c))"
  shows "distinct (map fst (funcs c'))"
proof (cases st)
  case EndFunc
  then show ?thesis using assms by (auto simp: distinct_update)
next
  case GetNextToken
  then show ?thesis using assms
    by (auto simp: get_next_token_def Let_def split: list.splits if_splits)
next
  case ReadFunc
  then show ?thesis using assms
    by (auto simp: get_next_token_def Let_def split: list.splits if_splits option.splits)
qed (use assms in \<open>auto split: option.splits\<close>)

lemma run_distinct:
  "run fs st c = Inr c' \<Longrightarrow> distinct (map fst (funcs c)) \<Longrightarrow> distinct (map fst (funcs c'))"
proof (induction fs st c rule: run.induct)
  case (1 fs st c)
  show ?case
  proof (cases "do_state fs st c")
    case (Inl a)
    then show ?thesis using "1.prems"(1) by (subst (asm) run.simps) (simp split: prod.splits)
  next
    case (Inr b)
    obtain x c1 where b: "b = (x, c1)" by (cases b)
    have d1: "distinct (map fst (funcs c1))"
      using do_state_distinct [OF Inr [unfolded b] "1.prems"(2)] .
    show ?thesis
    proof (cases x)
      case None
      then have "c' = c1" using "1.prems"(1) Inr b by (subst (asm) run.simps) simp
      then show ?thesis using d1 by simp
    next
      case (Some st')
      then have "run fs st' c1 = Inr c'" using "1.prems"(1) Inr b by (subst (asm) run.simps) simp
      then show ?thesis using "1.IH" [OF Inr b [symmetric] Some] d1 by simp
    qed
  qed
qed

lemma FileContext_run_distinct:
  "FileContext_run fs (FileContext p) = Inr c \<Longrightarrow> distinct (map fst (funcs c))"
proof -
  assume "FileContext_run fs (FileContext p) = Inr c"
  then have "run fs Start (FileContext p) = Inr c"
    by (auto simp: FileContext_run_def split: sum.splits prod.splits option.splits)
  then show ?thesis by (rule run_distinct) (simp add: FileContext_def)
qed

lemma scan_files_append:
  "scan_files fs (xs @ ys) A B out =
     (case scan_files fs xs A B out of
        Inl e \<Rightarrow> Inl e
      | Inr (A1, B1, out1) \<Rightarrow> scan_files fs ys A1 B1 out1)"
  by (induction xs arbitrary: A B out) (auto split: sum.splits prod.splits)

lemma scan_files_keeps:
  assumes "scan_files fs ps A B out = Inr (A', B', out')"
    and "distinct (map fst A)" and "distinct (map fst B)"
    and "\<forall>q\<in>set ps. \<forall>c. FileContext_run fs (FileContext q) = Inr c \<longrightarrow> name \<notin> set (keys (funcs c))"
  shows "distinct (map fst A') \<and> distinct (map fst B') \<and>
         map_of A' name = map_of A name \<and> map_of B' name = map_of B name"
  using assms
proof (induction ps arbitrary: A B out)
  case Nil
  then show ?case by simp
next
  case (Cons q ps)
  from Cons.prems(1) obtain c where c: "FileContext_run fs (FileContext q) = Inr c"
    by (auto split: sum.splits prod.splits)
  let ?A = "dict_ior A (funcs c)"
  let ?B = "dict_ior B (map (\<lambda>f. (f, q)) (keys (funcs c)))"
  have s: "scan_files fs ps ?A ?B (out @ stdout c) = Inr (A', B', out')"
    using Cons.prems(1) c by simp
  have dA: "distinct (map fst ?A)" using Cons.prems(2) by (rule distinct_dict_ior)
  have dB: "distinct (map fst ?B)" using Cons.prems(3) by (rule distinct_dict_ior)
  have nq: "name \<notin> set (keys (funcs c))" using Cons.prems(4) c by simp
  then have n1: "map_of (rev (funcs c)) name = None"
    by (simp add: map_of_eq_None_iff keys_def rev_map [symmetric])
  have n2: "map_of (rev (map (\<lambda>f. (f, q)) (keys (funcs c)))) name = None"
    using nq by (simp add: map_of_eq_None_iff keys_def image_image)
  have mA: "map_of ?A name = map_of A name" using n1 by (simp add: map_of_dict_ior map_add_def)
  have mB: "map_of ?B name = map_of B name" using n2 by (simp add: map_of_dict_ior map_add_def)
  have rest: "\<forall>q\<in>set ps. \<forall>c. FileContext_run fs (FileContext q) = Inr c \<longrightarrow>
      name \<notin> set (keys (funcs c))" using Cons.prems(4) by simp
  from Cons.IH [OF s dA dB rest] mA mB show ?case by simp
qed

lemma scan_files_distinct:
  assumes "scan_files fs ps A B out = Inr (A', B', out')"
    and "distinct (map fst A)" and "distinct (map fst B)"
  shows "distinct (map fst A') \<and> distinct (map fst B')"
  using assms
proof (induction ps arbitrary: A B out)
  case Nil
  then show ?case by simp
next
  case (Cons q ps)
  from Cons.prems(1) obtain c where c: "FileContext_run fs (FileContext q) = Inr c"
    by (auto split: sum.splits prod.splits)
  have s: "scan_files fs ps (dict_ior A (funcs c))
      (dict_ior B (map (\<lambda>f. (f, q)) (keys (funcs c)))) (out @ stdout c) = Inr (A', B', out')"
    using Cons.prems(1) c by simp
  show ?case
    by (rule Cons.IH [OF s distinct_dict_ior [OF Cons.prems(2)] distinct_dict_ior [OF Cons.prems(3)]])
qed

lemma single_record:
  "distinct (map fst xs) \<Longrightarrow> map_of xs k = Some v \<Longrightarrow> filter (\<lambda>kv. fst kv = k) xs = [(k, v)]"
proof (induction xs)
  case Nil
  then show ?case by simp
next
  case (Cons a xs)
  obtain k' v' where a: "a = (k', v')" by (cases a)
  show ?case
  proof (cases "k' = k")
    case True
    then have "k \<notin> fst ` set xs" using Cons.prems(1) a by auto
    then have "filter (\<lambda>kv. fst kv = k) xs = []" by (auto simp: filter_empty_conv)
    then show ?thesis using True a Cons.prems(2) by simp
  next
    case False
    then show ?thesis using Cons a by simp
  qed
qed

text \<open>
  Claim C8. Let the loop over the files \<open>pre @ p # post\<close> succeed, let the scan of \<open>p\<close>
  commit a function \<open>name\<close> with identifier set \<open>ids\<close>, and let no later file commit
  that name (files in \<open>pre\<close> may). Then the global function table has exactly one
  record for \<open>name\<close>, with the identifier set \<open>ids\<close>, and the global path table has
  exactly one record for \<open>name\<close>, with the path \<open>p\<close>.
\<close>

theorem duplicate_name_last_file_wins:
  assumes "scan_files fs (pre @ p # post) [] [] [] = Inr (all_funcs, func_paths, out)"
    and "FileContext_run fs (FileContext p) = Inr c"
    and "map_of (funcs c) name = Some ids"
    and "\<forall>q\<in>set post. \<forall>c'. FileContext_run fs (FileContext q) = Inr c' \<longrightarrow>
           name \<notin> set (keys (funcs c'))"
  shows "filter (\<lambda>kv. fst kv = name) all_funcs = [(name, ids)] \<and>
         filter (\<lambda>kv. fst kv = name) func_paths = [(name, p)]"
proof -
  from assms(1) obtain A0 B0 out0 where
    pre: "scan_files fs pre [] [] [] = Inr (A0, B0, out0)" and
    tail: "scan_files fs (p # post) A0 B0 out0 = Inr (all_funcs, func_paths, out)"
    by (auto simp: scan_files_append split: sum.splits prod.splits)
  from scan_files_distinct [OF pre] have d0: "distinct (map fst A0)" "distinct (map fst B0)"
    by simp_all
  let ?A = "dict_ior A0 (funcs c)"
  let ?B = "dict_ior B0 (map (\<lambda>f. (f, p)) (keys (funcs c)))"
  have post: "scan_files fs post ?A ?B (out0 @ stdout c) = Inr (all_funcs, func_paths, out)"
    using tail assms(2) by simp
  have dA: "distinct (map fst ?A)" using d0(1) by (rule distinct_dict_ior)
  have dB: "distinct (map fst ?B)" using d0(2) by (rule distinct_dict_ior)
  from scan_files_keeps [OF post dA dB assms(4)]
  have k: "distinct (map fst all_funcs)" "distinct (map fst func_paths)"
    "map_of all_funcs name = map_of ?A name" "map_of func_paths name = map_of ?B name"
    by simp_all
  have dc: "distinct (map fst (funcs c))" using assms(2) by (rule FileContext_run_distinct)
  have "map_of ?A name = Some ids"
    using assms(3) by (simp add: map_of_dict_ior map_of_rev_distinct [OF dc] map_add_def)
  then have a: "map_of all_funcs name = Some ids" using k(3) by simp
  have mem: "name \<in> set (keys (funcs c))" using assms(3) by (rule map_of_Some_keys)
  have dk: "distinct (map fst (map (\<lambda>f. (f, p)) (keys (funcs c))))"
    using dc by (simp add: keys_def comp_def)
  have "map_of (map (\<lambda>f. (f, p)) (keys (funcs c))) name = Some p"
    using mem by (induction "keys (funcs c)") (auto simp: map_of_map_restrict)
  then have "map_of ?B name = Some p"
    by (simp add: map_of_dict_ior map_of_rev_distinct [OF dk] map_add_def)
  then have b: "map_of func_paths name = Some p" using k(4) by simp
  show ?thesis using single_record [OF k(1) a] single_record [OF k(2) b] by simp
qed

lemma scan_two_dups:
  "scan_files two_dups ([''a.ts''] @ ''b.ts'' # []) [] [] []
     = Inr ([(''dup'', [''y''])], [(''dup'', ''b.ts'')], [])"
  by code_simp

lemma first_dup_alone:
  "scan_files two_dups [''a.ts''] [] [] [] = Inr ([(''dup'', [''x''])], [(''dup'', ''a.ts'')], [])"
  by code_simp

lemma second_dup_run:
  "\<exists>c. FileContext_run two_dups (FileContext ''b.ts'') = Inr c \<and>
       map_of (funcs c) ''dup'' = Some [''y'']"
proof -
  have "(case FileContext_run two_dups (FileContext ''b.ts'') of
           Inl e \<Rightarrow> False
         | Inr c \<Rightarrow> map_of (funcs c) ''dup'' = Some [''y''])"
    by code_simp
  then show ?thesis by (cases "FileContext_run two_dups (FileContext ''b.ts'')") auto
qed

theorem duplicate_name_last_file_wins_witness:
  "scan_files two_dups ([''a.ts''] @ ''b.ts'' # []) [] [] []
     = Inr ([(''dup'', [''y''])], [(''dup'', ''b.ts'')], []) \<and>
   filter (\<lambda>kv. fst kv = ''dup'') [(''dup'', [''y''])] = [(''dup'', [''y''])] \<and>
   filter (\<lambda>kv. fst kv = ''dup'') [(''dup'', ''b.ts'')] = [(''dup'', ''b.ts'')]"
proof -
  from second_dup_run obtain c where
    c: "FileContext_run two_dups (FileContext ''b.ts'') = Inr c"
    "map_of (funcs c) ''dup'' = Some [''y'']" by blast
  have h4: "\<forall>q\<in>set []. \<forall>c'. FileContext_run two_dups (FileContext q) = Inr c' \<longrightarrow>
      ''dup'' \<notin> set (keys (funcs c'))" by simp
  note r = duplicate_name_last_file_wins [OF scan_two_dups c h4]
  show ?thesis
    using scan_two_dups r [THEN conjunct1] r [THEN conjunct2] by (intro conjI)
qed


end
